theory Spec2Isabelle
  imports Main "HOL-Library.Sublist"
begin

text \<open>
  A model of the plugin \<open>viteMultiSpa\<close> of vite-multi-spa, in its version with redirects:
  the compilation of the redirect patterns, \<open>resolveRedirect\<close> and \<open>resolvePageUrl\<close>, the
  middleware of \<open>configureServer\<close>, and the build hooks \<open>buildStart\<close> and
  \<open>generateBundle\<close>. What the plugin takes from its platform is modelled beside it: the
  regular expressions it builds, \<open>String.prototype.replace\<close>, and the functions of
  \<open>path.posix\<close>; the file system (\<open>fs.existsSync\<close>, \<open>fs.globSync\<close>) and the URL parser
  are parameters.
\<close>

section \<open>JavaScript strings and character classes\<close>

text \<open>
  A JavaScript string is modelled as a \<open>string\<close> (a list of characters, one \<open>char\<close> per code
  unit). \<open>s.startsWith(p)\<close> is \<open>prefix p s\<close>, \<open>s.endsWith(p)\<close> is \<open>suffix p s\<close>,
  \<open>s.slice(n)\<close> is \<open>drop n s\<close> and \<open>s.slice(0, n)\<close> is \<open>take n s\<close>.
\<close>

definition backslash :: char where
  "backslash = CHR 0x5C"

text \<open>The class \<open>\w\<close> of a regular expression without the unicode flag: \<open>[A-Za-z0-9_]\<close>.\<close>

definition word_char :: "char \<Rightarrow> bool" where
  "word_char c \<longleftrightarrow> c \<in> set (''abcdefghijklmnopqrstuvwxyz'' @ ''ABCDEFGHIJKLMNOPQRSTUVWXYZ'' @ ''0123456789_'')"

text \<open>The class \<open>[a-zA-Z_]\<close> that starts a placeholder name.\<close>

definition ident_start :: "char \<Rightarrow> bool" where
  "ident_start c \<longleftrightarrow> c \<in> set (''abcdefghijklmnopqrstuvwxyz'' @ ''ABCDEFGHIJKLMNOPQRSTUVWXYZ'' @ ''_'')"

text \<open>The class \<open>[.+?^${}()|[\]\\]\<close> of the escaping step.\<close>

definition regex_char :: "char \<Rightarrow> bool" where
  "regex_char c \<longleftrightarrow> c \<in> set (''.+?^${}()|[]'' @ [backslash])"

text \<open>
  The line terminators that \<open>.\<close> does not match (no \<open>s\<close> flag): line feed and carriage
  return (the two others, U+2028 and U+2029, are not single characters of this model).
\<close>

definition line_terminator :: "char \<Rightarrow> bool" where
  "line_terminator c \<longleftrightarrow> c = CHR 0x0A \<or> c = CHR 0x0D"

section \<open>The pattern compiler\<close>

text \<open>
  \<open>pattern.replace(/[.+?^${}()|[\]\\]/g, '\\$&')\<close>: every character of the class is
  replaced by a backslash followed by itself.
\<close>

definition escape_char :: "char \<Rightarrow> string" where
  "escape_char c = (if regex_char c then [backslash, c] else [c])"

definition escape_pattern :: "string \<Rightarrow> string" where
  "escape_pattern pattern = concat (map escape_char pattern)"

text \<open>
  One match of \<open>tokenRegex = /(\*)|(:[a-zA-Z_]\w*)/g\<close>: \<open>match[1]\<close> is the splat,
  \<open>match[2]\<close> the placeholder with its colon.
\<close>

datatype token_match = Splat | Placeholder string

text \<open>
  \<open>tokenRegex.exec(escaped)\<close> from \<open>lastIndex\<close>, on the text that starts there: the text
  before the leftmost match (\<open>escaped.slice(lastIndex, index)\<close>), the match, and the text
  after it (from the new \<open>lastIndex = index + full.length\<close>); \<open>None\<close> is \<open>null\<close>.
\<close>

fun token_exec :: "string \<Rightarrow> (string \<times> token_match \<times> string) option" where
  "token_exec [] = None"
| "token_exec (c # cs) =
     (if c = CHR ''*'' then Some ([], Splat, cs)
      else if c = CHR '':'' \<and> (case cs of [] \<Rightarrow> False | d # _ \<Rightarrow> ident_start d)
        then Some ([], Placeholder (c # takeWhile word_char cs), dropWhile word_char cs)
      else (case token_exec cs of
              None \<Rightarrow> None
            | Some (skipped, m, rest) \<Rightarrow> Some (c # skipped, m, rest)))"

text \<open>The capture group appended for a token; \<open>name = placeholder.slice(1)\<close>.\<close>

fun capture_group :: "token_match \<Rightarrow> string" where
  "capture_group Splat = ''(?<splat>.*)''"
| "capture_group (Placeholder placeholder) = ''(?<'' @ drop 1 placeholder @ ''>[^/]+)''"

lemma token_exec_shorter:
  "token_exec s = Some (skipped, m, rest) \<Longrightarrow> length rest < length s"
proof (induction s arbitrary: skipped)
  case Nil
  then show ?case by simp
next
  case (Cons c cs)
  show ?case
  proof (cases "c = CHR ''*''")
    case True
    with Cons.prems show ?thesis by auto
  next
    case star: False
    show ?thesis
    proof (cases "c = CHR '':'' \<and> (case cs of [] \<Rightarrow> False | d # _ \<Rightarrow> ident_start d)")
      case True
      with star Cons.prems have "rest = dropWhile word_char cs" by auto
      then show ?thesis by (simp add: length_dropWhile_le le_imp_less_Suc)
    next
      case False
      with star Cons.prems obtain sk where "token_exec cs = Some (sk, m, rest)"
        by (auto split: option.splits)
      from Cons.IH [OF this] show ?thesis by simp
    qed
  qed
qed

text \<open>
  The \<open>while ((match = tokenRegex.exec(escaped)))\<close> loop followed by
  \<open>regexStr += escaped.slice(lastIndex)\<close>: what is appended to \<open>regexStr\<close> for the text
  from \<open>lastIndex\<close> on.
\<close>

function compile_loop :: "string \<Rightarrow> string" where
  "compile_loop s =
     (case token_exec s of
        None \<Rightarrow> s
      | Some (skipped, m, rest) \<Rightarrow> skipped @ capture_group m @ compile_loop rest)"
  by pat_completeness auto
termination
  by (relation "measure length") (auto dest: token_exec_shorter)

declare compile_loop.simps [simp del]

definition regexStr :: "string \<Rightarrow> string" where
  "regexStr pattern = ''^'' @ compile_loop (escape_pattern pattern) @ ''$''"

section \<open>The regular expressions the compiler builds\<close>

text \<open>
  \<open>new RegExp(regexStr)\<close> and \<open>url.match(regex)\<close> belong to the JavaScript engine. The model
  covers the sources the compiler can build: \<open>^\<close>, then literal characters, identity
  escapes of syntax characters, and the two named groups \<open>(?<name>.*)\<close> and
  \<open>(?<name>[^/]+)\<close>, then \<open>$\<close>.
\<close>

datatype group_body = AnyGreedy | NotSlashPlus

datatype regex_node = Lit char | NamedGroup string group_body

datatype js_error = SyntaxError | TypeError | Outside_model

text \<open>The syntax characters of a pattern: \<open>^ $ \ . * + ? ( ) [ ] { } |\<close>.\<close>

definition syntax_char :: "char \<Rightarrow> bool" where
  "syntax_char c \<longleftrightarrow> regex_char c \<or> c = CHR ''*''"

text \<open>A named group, read after its opening parenthesis: the node and the text after it.\<close>

definition parse_group :: "string \<Rightarrow> (regex_node \<times> string) option" where
  "parse_group s =
     (if prefix ''?<'' s then
        (let name = takeWhile word_char (drop 2 s);
             body = dropWhile word_char (drop 2 s)
         in if name = [] \<or> \<not> ident_start (hd name) then None
            else if prefix ''>.*)'' body then Some (NamedGroup name AnyGreedy, drop 4 body)
            else if prefix ''>[^/]+)'' body then Some (NamedGroup name NotSlashPlus, drop 7 body)
            else None)
      else None)"

lemma parse_group_shorter:
  "parse_group s = Some (g, rest) \<Longrightarrow> length rest < Suc (length s)"
proof -
  assume a: "parse_group s = Some (g, rest)"
  have d: "length (dropWhile word_char (drop 2 s)) \<le> length s"
    by (rule order_trans [OF length_dropWhile_le]) simp
  from a have "rest = drop 4 (dropWhile word_char (drop 2 s)) \<or>
               rest = drop 7 (dropWhile word_char (drop 2 s))"
    by (auto simp: parse_group_def Let_def split: if_splits)
  with d show ?thesis by auto
qed

text \<open>The pattern after \<open>^\<close>, up to and including the closing \<open>$\<close>.\<close>

function parse_body :: "string \<Rightarrow> regex_node list option" where
  "parse_body [] = None"
| "parse_body (c # cs) =
     (if c = CHR ''$'' then (if cs = [] then Some [] else None)
      else if c = backslash then
        (case cs of
           [] \<Rightarrow> None
         | d # ds \<Rightarrow> if syntax_char d then map_option (Cons (Lit d)) (parse_body ds) else None)
      else if c = CHR ''('' then
        (case parse_group cs of
           None \<Rightarrow> None
         | Some (g, rest) \<Rightarrow> map_option (Cons g) (parse_body rest))
      else if syntax_char c then None
      else map_option (Cons (Lit c)) (parse_body cs))"
  by pat_completeness auto
termination
  by (relation "measure length") (auto dest: parse_group_shorter)

fun group_names :: "regex_node list \<Rightarrow> string list" where
  "group_names [] = []"
| "group_names (Lit c # nodes) = group_names nodes"
| "group_names (NamedGroup name body # nodes) = name # group_names nodes"

text \<open>
  \<open>new RegExp(source)\<close>: a source with two groups of one name throws a SyntaxError
  (duplicate capture group name); a source outside the covered fragment is
  \<open>Outside_model\<close>, which the compiler never builds (lemma \<open>compile_never_outside\<close> below).
\<close>

definition new_RegExp :: "string \<Rightarrow> js_error + regex_node list" where
  "new_RegExp source =
     (case source of
        [] \<Rightarrow> Inl Outside_model
      | c # cs \<Rightarrow>
          if c = CHR ''^'' then
            (case parse_body cs of
               None \<Rightarrow> Inl Outside_model
             | Some nodes \<Rightarrow> if distinct (group_names nodes) then Inr nodes else Inl SyntaxError)
          else Inl Outside_model)"

text \<open>The characters a group's body matches, and the least number of them.\<close>

fun body_char :: "group_body \<Rightarrow> char \<Rightarrow> bool" where
  "body_char AnyGreedy c = (\<not> line_terminator c)"
| "body_char NotSlashPlus c = (c \<noteq> CHR ''/'')"

fun body_min :: "group_body \<Rightarrow> nat" where
  "body_min AnyGreedy = 0"
| "body_min NotSlashPlus = 1"

fun first_some :: "'a option list \<Rightarrow> 'a option" where
  "first_some [] = None"
| "first_some (None # xs) = first_some xs"
| "first_some (Some x # xs) = Some x"

text \<open>
  The backtracking matcher on the text that is left: a greedy group first takes the
  longest run of its characters and gives back one character at a time until the rest
  of the pattern matches; the end of the pattern is \<open>$\<close>, the end of the text. The result
  is \<open>match.groups\<close> as \<open>Object.entries\<close> lists it (in the order of the groups), \<open>None\<close> is
  \<open>null\<close>.
\<close>

fun regex_match :: "regex_node list \<Rightarrow> string \<Rightarrow> (string \<times> string) list option" where
  "regex_match [] s = (if s = [] then Some [] else None)"
| "regex_match (Lit c # nodes) s =
     (case s of
        [] \<Rightarrow> None
      | d # ds \<Rightarrow> if d = c then regex_match nodes ds else None)"
| "regex_match (NamedGroup name body # nodes) s =
     first_some
       (map (\<lambda>k. map_option (Cons (name, take k s)) (regex_match nodes (drop k s)))
            (rev [body_min body ..< Suc (length (takeWhile (body_char body) s))]))"

section \<open>Substituting the captured values\<close>

text \<open>
  The replacement text of \<open>String.prototype.replace\<close> with a string as its second argument
  (GetSubstitution): \<open>$$\<close> is a dollar sign, \<open>$&\<close> the matched text, \<open>$`\<close> the text preceding
  the match and \<open>$'\<close> the text after it; \<open>$n\<close> and \<open>$<\<close> stay as they are, since the
  expression \<open>:name\b\<close> has no capture group.
\<close>

fun get_substitution :: "string \<Rightarrow> string \<Rightarrow> string \<Rightarrow> string \<Rightarrow> string" where
  "get_substitution matched preceding following [] = []"
| "get_substitution matched preceding following [c] = [c]"
| "get_substitution matched preceding following (c # d # r) =
     (if c = CHR ''$'' \<and> d = CHR ''$'' then CHR ''$'' # get_substitution matched preceding following r
      else if c = CHR ''$'' \<and> d = CHR ''&'' then matched @ get_substitution matched preceding following r
      else if c = CHR ''$'' \<and> d = CHR 0x60 then preceding @ get_substitution matched preceding following r
      else if c = CHR ''$'' \<and> d = CHR 0x27 then following @ get_substitution matched preceding following r
      else c # get_substitution matched preceding following (d # r))"

text \<open>
  Whether \<open>:name\b\<close> matches at the start of the text: the colon and the name, then a word
  boundary (the character before it is the last of \<open>:name\<close>, the one after it the next
  of the text, and the end of the text is no word character).
\<close>

definition placeholder_at :: "string \<Rightarrow> string \<Rightarrow> bool" where
  "placeholder_at name s \<longleftrightarrow>
     prefix (CHR '':'' # name) s \<and>
     word_char (last (CHR '':'' # name)) \<noteq>
       (case drop (Suc (length name)) s of [] \<Rightarrow> False | d # _ \<Rightarrow> word_char d)"

text \<open>
  \<open>result.replace(new RegExp(`:${name}\\b`, 'g'), value)\<close> on the text that is left, \<open>preceding\<close>
  being the text already passed. The names are those of the groups, made of word
  characters, which stand for themselves in the expression.
\<close>

function replace_from :: "string \<Rightarrow> string \<Rightarrow> string \<Rightarrow> string \<Rightarrow> string" where
  "replace_from name v preceding [] = []"
| "replace_from name v preceding (c # cs) =
     (if placeholder_at name (c # cs)
      then get_substitution (CHR '':'' # name) preceding (drop (length name) cs) v
           @ replace_from name v (preceding @ CHR '':'' # name) (drop (length name) cs)
      else c # replace_from name v (preceding @ [c]) cs)"
  by pat_completeness auto
termination
  by (relation "measure (\<lambda>(name, v, preceding, s). length s)") auto

definition replace_placeholder :: "string \<Rightarrow> string \<Rightarrow> string \<Rightarrow> string" where
  "replace_placeholder name v result = replace_from name v [] result"

section \<open>Paths\<close>

text \<open>\<open>s.split(sep)\<close> for a separator of one character.\<close>

fun split_on :: "char \<Rightarrow> string \<Rightarrow> string list" where
  "split_on sep [] = [[]]"
| "split_on sep (c # cs) =
     (if c = sep then [] # split_on sep cs
      else (case split_on sep cs of
              [] \<Rightarrow> [[c]]
            | w # ws \<Rightarrow> (c # w) # ws))"

fun join_with :: "char \<Rightarrow> string list \<Rightarrow> string" where
  "join_with sep [] = []"
| "join_with sep [w] = w"
| "join_with sep (w # v # ws) = w @ sep # join_with sep (v # ws)"

text \<open>
  Node's \<open>normalizeString\<close> of \<open>path.posix\<close>, segment by segment: empty segments and \<open>.\<close> are
  dropped, \<open>..\<close> removes the segment before it, and where there is none (or it is \<open>..\<close>
  itself) it is kept only when the path may climb above its root. The segments kept so
  far are held last first.
\<close>

fun normalize_segments :: "bool \<Rightarrow> string list \<Rightarrow> string list \<Rightarrow> string list" where
  "normalize_segments allowAboveRoot kept [] = rev kept"
| "normalize_segments allowAboveRoot kept (seg # segs) =
     (if seg = [] \<or> seg = ''.'' then normalize_segments allowAboveRoot kept segs
      else if seg = ''..'' then
        (case kept of
           [] \<Rightarrow> normalize_segments allowAboveRoot (if allowAboveRoot then [''..''] else []) segs
         | k # ks \<Rightarrow>
             if k = ''..'' then
               normalize_segments allowAboveRoot (if allowAboveRoot then ''..'' # kept else kept) segs
             else normalize_segments allowAboveRoot ks segs)
      else normalize_segments allowAboveRoot (seg # kept) segs)"

text \<open>\<open>path.posix.normalize\<close>.\<close>

definition posix_normalize :: "string \<Rightarrow> string" where
  "posix_normalize path =
     (if path = [] then ''.''
      else
        (let isAbsolute = (hd path = CHR ''/'');
             trailingSeparator = (last path = CHR ''/'');
             res = join_with CHR ''/'' (normalize_segments (\<not> isAbsolute) [] (split_on CHR ''/'' path))
         in if res = [] then (if isAbsolute then ''/'' else if trailingSeparator then ''./'' else ''.'')
            else (if isAbsolute then ''/'' else []) @ res @ (if trailingSeparator then ''/'' else [])))"

text \<open>
  Vite's \<open>normalizePath\<close> is \<open>path.posix.normalize\<close> of its argument on every platform but
  Windows, where it first turns backslashes into slashes; this is the former.
\<close>

definition normalizePath :: "string \<Rightarrow> string" where
  "normalizePath p = posix_normalize p"

text \<open>\<open>path.join\<close> of \<open>path.posix\<close>: the non-empty arguments joined by slashes, normalized.\<close>

definition path_join :: "string list \<Rightarrow> string" where
  "path_join args =
     (let joined = join_with CHR ''/'' (filter (\<lambda>a. a \<noteq> []) args)
      in if joined = [] then ''.'' else posix_normalize joined)"

text \<open>
  \<open>path.relative(from, to)\<close> of \<open>path.posix\<close> for two absolute paths (it resolves relative
  ones against the working directory, which is not modelled): the segments they share
  are dropped, and every segment left of \<open>from\<close> is a step up.
\<close>

fun drop_common :: "string list \<Rightarrow> string list \<Rightarrow> string list \<times> string list" where
  "drop_common (a # as) (b # bs) = (if a = b then drop_common as bs else (a # as, b # bs))"
| "drop_common as bs = (as, bs)"

definition path_relative :: "string \<Rightarrow> string \<Rightarrow> string" where
  "path_relative from to =
     (case drop_common (normalize_segments False [] (split_on CHR ''/'' from))
                       (normalize_segments False [] (split_on CHR ''/'' to)) of
        (up, down) \<Rightarrow> join_with CHR ''/'' (map (\<lambda>_. ''..'') up @ down))"

section \<open>The plugin: options, compiled redirects, resolvers\<close>

text \<open>
  \<open>options.pagesRoot ? normalizePath(options.pagesRoot).replace(/(^\/|\/$)/g, '') : 'src/pages'\<close>;
  an option that is missing or the empty string is falsy.
\<close>

definition trim_slashes :: "string \<Rightarrow> string" where
  "trim_slashes s =
     (let s1 = (if prefix ''/'' s then drop 1 s else s)
      in if suffix ''/'' s1 then butlast s1 else s1)"

definition pagesRoot_of :: "string option \<Rightarrow> string" where
  "pagesRoot_of opt =
     (case opt of
        None \<Rightarrow> ''src/pages''
      | Some p \<Rightarrow> if p = [] then ''src/pages'' else trim_slashes (normalizePath p))"

text \<open>A compiled redirect: the closure returned for one entry holds \<open>regex\<close> and \<open>target\<close>.\<close>

record redirect =
  regex :: "regex_node list"
  target :: string

text \<open>
  The body of the \<open>map\<close> callback up to \<open>new RegExp(regexStr)\<close>; the exception of the
  constructor is \<open>Inl\<close>.
\<close>

definition compile_redirect :: "string \<times> string \<Rightarrow> js_error + redirect" where
  "compile_redirect entry =
     (case entry of (pattern, tgt) \<Rightarrow>
        (case new_RegExp (regexStr pattern) of
           Inl e \<Rightarrow> Inl e
         | Inr r \<Rightarrow> Inr \<lparr>regex = r, target = tgt\<rparr>))"

text \<open>
  \<open>Object.entries(options.redirects || {}).map(...)\<close> at the plugin's initialization: the
  entries in the order \<open>Object.entries\<close> gives them; the first exception ends it.
\<close>

fun compile_redirects :: "(string \<times> string) list \<Rightarrow> js_error + redirect list" where
  "compile_redirects [] = Inr []"
| "compile_redirects (entry # entries) =
     (case compile_redirect entry of
        Inl e \<Rightarrow> Inl e
      | Inr m \<Rightarrow>
          (case compile_redirects entries of
             Inl e \<Rightarrow> Inl e
           | Inr ms \<Rightarrow> Inr (m # ms)))"

text \<open>
  The returned closure \<open>(url) => ...\<close>: \<open>null\<close> when the expression does not match, else the
  target with every group substituted in turn, normalized.
\<close>

fun substitute_groups :: "string \<Rightarrow> (string \<times> string) list \<Rightarrow> string" where
  "substitute_groups result [] = result"
| "substitute_groups result ((name, v) # groups) =
     substitute_groups (replace_placeholder name v result) groups"

definition redirect_match :: "redirect \<Rightarrow> string \<Rightarrow> string option" where
  "redirect_match m url =
     (case regex_match (regex m) url of
        None \<Rightarrow> None
      | Some groups \<Rightarrow> Some (normalizePath (substitute_groups (target m) groups)))"

text \<open>
  What the closures of one plugin instance share: \<open>root\<close> (set by \<open>configResolved\<close>),
  \<open>pagesRoot\<close> and the compiled \<open>redirects\<close>. The file system is the predicate
  \<open>existsSync\<close> on paths, true where \<open>fs.existsSync\<close> is.
\<close>

record plugin =
  root :: string
  pagesRoot :: string
  redirects :: "redirect list"

definition resolvePageUrl :: "(string \<Rightarrow> bool) \<Rightarrow> plugin \<Rightarrow> string \<Rightarrow> string option" where
  "resolvePageUrl existsSync p url =
     (let pageURL = ''/'' @ pagesRoot p @ url
      in if suffix ''/'' pageURL then
           (if existsSync (path_join [root p, pageURL, ''index.html'']) then Some pageURL else None)
         else
           (if existsSync (path_join [root p, pageURL @ ''.html'']) then Some pageURL else None))"

text \<open>\<open>pageUrl.replace(/\.html$/, '')\<close>.\<close>

definition strip_html :: "string \<Rightarrow> string" where
  "strip_html s = (if suffix ''.html'' s then take (length s - 5) s else s)"

text \<open>
  The loop of \<open>resolveRedirect\<close> over the redirects that are left; \<open>if (target)\<close> is false
  for \<open>null\<close> and for the empty string.
\<close>

fun resolve_loop :: "(string \<Rightarrow> bool) \<Rightarrow> plugin \<Rightarrow> redirect list \<Rightarrow> string \<Rightarrow> string option" where
  "resolve_loop existsSync p [] url = None"
| "resolve_loop existsSync p (m # ms) url =
     (case redirect_match m url of
        None \<Rightarrow> resolve_loop existsSync p ms url
      | Some tgt \<Rightarrow>
          if tgt = [] then resolve_loop existsSync p ms url
          else
            (let pageUrl = (if prefix ''/'' tgt then tgt else ''/'' @ tgt)
             in resolvePageUrl existsSync p (strip_html pageUrl)))"

definition resolveRedirect :: "(string \<Rightarrow> bool) \<Rightarrow> plugin \<Rightarrow> string \<Rightarrow> string option" where
  "resolveRedirect existsSync p url = resolve_loop existsSync p (redirects p) url"

text \<open>
  The options the model reads (\<open>options.pagesRoot\<close>, and \<open>options.redirects\<close> as its
  entries, none when it is missing), and the initialization \<open>viteMultiSpa(options)\<close>: the
  pages root, then the compiled redirects, whose exception is that of the call. \<open>root\<close>
  is assigned later, by the hook \<open>configResolved\<close>.
\<close>

record options =
  opt_pagesRoot :: "string option"
  opt_redirects :: "(string \<times> string) list"

definition viteMultiSpa :: "options \<Rightarrow> js_error + plugin" where
  "viteMultiSpa opts =
     (case compile_redirects (opt_redirects opts) of
        Inl e \<Rightarrow> Inl e
      | Inr ms \<Rightarrow> Inr \<lparr>root = [], pagesRoot = pagesRoot_of (opt_pagesRoot opts), redirects = ms\<rparr>)"

definition configResolved :: "plugin \<Rightarrow> string \<Rightarrow> plugin" where
  "configResolved p config_root = p\<lparr>root := config_root\<rparr>"

section \<open>The request router\<close>

record request =
  url :: string
  originalUrl :: "string option"
  headers :: "(string \<times> string) list"

text \<open>
  \<open>req.headers[name]\<close>: the headers are the list of the names (in lower case) with their
  values, and a header that was not sent is \<open>undefined\<close>.
\<close>

definition header :: "request \<Rightarrow> string \<Rightarrow> string option" where
  "header req name = map_of (headers req) name"

text \<open>A value that is a string or \<open>undefined\<close> is truthy when it is a non-empty string.\<close>

fun truthy :: "string option \<Rightarrow> bool" where
  "truthy None = False"
| "truthy (Some s) = (s \<noteq> [])"

text \<open>\<open>const [url, query = ''] = req.url!.split('?')\<close>.\<close>

definition split_url :: "string \<Rightarrow> string \<times> string" where
  "split_url u =
     (case split_on CHR ''?'' u of
        [] \<Rightarrow> ([], [])
      | [path] \<Rightarrow> (path, [])
      | path # query # _ \<Rightarrow> (path, query))"

text \<open>\<open>(query ? '?' + query : '')\<close>.\<close>

definition query_suffix :: "string \<Rightarrow> string" where
  "query_suffix query = (if query \<noteq> [] then ''?'' @ query else [])"

text \<open>\<open>s.lastIndexOf(c)\<close>, which is -1 where \<open>c\<close> does not occur, and \<open>s.slice(0, e)\<close>.\<close>

definition lastIndexOf :: "char \<Rightarrow> string \<Rightarrow> int" where
  "lastIndexOf c s = int (length (dropWhile (\<lambda>x. x \<noteq> c) (rev s))) - 1"

definition slice0 :: "int \<Rightarrow> string \<Rightarrow> string" where
  "slice0 e s = (if e < 0 then take (nat (int (length s) + e)) s else take (nat e) s)"

text \<open>\<open>req.url = ...; delete req.originalUrl\<close>.\<close>

definition rewrite :: "request \<Rightarrow> string \<Rightarrow> request" where
  "rewrite req u = req\<lparr>url := u, originalUrl := None\<rparr>"

text \<open>
  The middleware, up to its call of \<open>next()\<close>: the request as the next handler sees it,
  or the exception of \<open>new URL(req.headers['referer'])\<close>. The URL parser is the
  parameter \<open>pathname\<close>: \<open>None\<close> where the constructor throws, else the \<open>pathname\<close> of the
  parsed URL.
\<close>

definition middleware ::
  "(string \<Rightarrow> bool) \<Rightarrow> (string \<Rightarrow> string option) \<Rightarrow> plugin \<Rightarrow> request \<Rightarrow> js_error + request" where
  "middleware existsSync pathname p req =
     (case split_url (url req) of (path, query) \<Rightarrow>
        (let secFetchDest = header req ''sec-fetch-dest'' in
         if secFetchDest = Some ''document'' then
           (let redirectUrl = resolveRedirect existsSync p path in
            if truthy redirectUrl then
              Inr (rewrite req (case_option [] id redirectUrl @ query_suffix query))
            else
              (let pageUrl = resolvePageUrl existsSync p path in
               if truthy pageUrl then
                 Inr (rewrite req (case_option [] id pageUrl @ query_suffix query))
               else Inr req))
         else if truthy secFetchDest \<and> truthy (header req ''referer'') then
           (if prefix ''/@vite/'' path then Inr req
            else
              (case pathname (case_option [] id (header req ''referer'')) of
                 None \<Rightarrow> Inl TypeError
               | Some referer_pathname \<Rightarrow>
                   (let fromRedirect = resolveRedirect existsSync p referer_pathname;
                        pageUrl = (if truthy fromRedirect then fromRedirect
                                   else resolvePageUrl existsSync p referer_pathname)
                    in if truthy pageUrl \<and> \<not> existsSync (path_join [root p, path]) then
                         (let pu = case_option [] id pageUrl;
                              assetUrl = slice0 (lastIndexOf CHR ''/'' pu) pu @ path
                          in if existsSync (path_join [root p, assetUrl])
                             then Inr (rewrite req (assetUrl @ query_suffix query))
                             else Inr req)
                       else Inr req)))
         else Inr req))"

section \<open>The build: emitting the pages and flattening the bundle\<close>

datatype emitted_file = EmittedChunk string

text \<open>
  The plugin context of a build hook: the name of its environment and the files
  \<open>this.emitFile\<close> has been given so far.
\<close>

record plugin_context =
  environment_name :: string
  emitted :: "emitted_file list"

definition emitFile :: "plugin_context \<Rightarrow> emitted_file \<Rightarrow> plugin_context" where
  "emitFile ctx file = ctx\<lparr>emitted := emitted ctx @ [file]\<rparr>"

text \<open>
  \<open>buildStart\<close>; \<open>globSync\<close> is \<open>fs.globSync\<close>, the list of the paths that match a pattern.
\<close>

definition buildStart :: "(string \<Rightarrow> string list) \<Rightarrow> plugin \<Rightarrow> plugin_context \<Rightarrow> plugin_context" where
  "buildStart globSync p ctx =
     (if environment_name ctx \<noteq> ''client'' then ctx
      else foldl (\<lambda>c file. emitFile c (EmittedChunk (path_relative (root p) file))) ctx
             (globSync (path_join [root p, pagesRoot p @ ''/**/*.html''])))"

datatype output_type = Asset | Chunk

record output_file =
  file_type :: output_type
  fileName :: string

text \<open>
  The loop of \<open>generateBundle\<close> over the entries of the bundle (its keys with the files
  they name); only \<open>file.fileName\<close> is assigned.
\<close>

fun flatten_loop :: "string \<Rightarrow> (string \<times> output_file) list \<Rightarrow> (string \<times> output_file) list" where
  "flatten_loop pr [] = []"
| "flatten_loop pr ((filename, file) # bundle) =
     (filename,
      if file_type file = Asset \<and> prefix (pr @ ''/'') (fileName file)
      then file\<lparr>fileName := drop (length pr + 1) (fileName file)\<rparr>
      else file) # flatten_loop pr bundle"

definition generateBundle ::
  "plugin \<Rightarrow> plugin_context \<Rightarrow> (string \<times> output_file) list \<Rightarrow> (string \<times> output_file) list" where
  "generateBundle p ctx bundle =
     (if environment_name ctx \<noteq> ''client'' then bundle
      else flatten_loop (pagesRoot p) bundle)"

section \<open>Patterns as token sequences\<close>

text \<open>
  A second reading of a pattern, on the pattern itself and not on its escaped text: a
  \<open>*\<close> is a wildcard, a colon followed by \<open>[a-zA-Z_]\w*\<close> a placeholder of that name, and
  every other character a literal. The theorems below compare the compiled expression
  with it.
\<close>

datatype pattern_token = Literal char | Wildcard | Named string

definition starts_name :: "string \<Rightarrow> bool" where
  "starts_name cs = (case cs of [] \<Rightarrow> False | d # _ \<Rightarrow> ident_start d)"

function pattern_tokens :: "string \<Rightarrow> pattern_token list" where
  "pattern_tokens [] = []"
| "pattern_tokens (c # cs) =
     (if c = CHR ''*'' then Wildcard # pattern_tokens cs
      else if c = CHR '':'' \<and> starts_name cs
        then Named (takeWhile word_char cs) # pattern_tokens (dropWhile word_char cs)
      else Literal c # pattern_tokens cs)"
  by pat_completeness auto
termination
  by (relation "measure length") (auto simp: length_dropWhile_le le_imp_less_Suc)

fun render_token :: "pattern_token \<Rightarrow> string" where
  "render_token (Literal c) = escape_char c"
| "render_token Wildcard = ''(?<splat>.*)''"
| "render_token (Named n) = ''(?<'' @ n @ ''>[^/]+)''"


text \<open>
  The tokens the tokenizer yields (\<open>wf_token\<close>), and the node of the expression each
  stands for.
\<close>

fun wf_token :: "pattern_token \<Rightarrow> bool" where
  "wf_token (Literal c) = (c \<noteq> CHR ''*'')"
| "wf_token Wildcard = True"
| "wf_token (Named n) = (n \<noteq> [] \<and> ident_start (hd n) \<and> list_all word_char n)"

fun node_of :: "pattern_token \<Rightarrow> regex_node" where
  "node_of (Literal c) = Lit c"
| "node_of Wildcard = NamedGroup ''splat'' AnyGreedy"
| "node_of (Named n) = NamedGroup n NotSlashPlus"


text \<open>
  The paths a token sequence describes: \<open>pattern_splits ts path caps\<close> says that the
  whole path splits along the tokens with the captures \<open>caps\<close>. A literal is its own
  character, a wildcard a run of characters other than line terminators (what \<open>.*\<close>
  takes), captured as \<open>splat\<close>, and a placeholder a non-empty run of characters other
  than the slash (what \<open>[^/]+\<close> takes), captured under its name; nothing of the path
  is left before or after.
\<close>

fun pattern_splits :: "pattern_token list \<Rightarrow> string \<Rightarrow> (string \<times> string) list \<Rightarrow> bool" where
  "pattern_splits [] s caps = (s = [] \<and> caps = [])"
| "pattern_splits (Literal c # ts) s caps =
     (case s of [] \<Rightarrow> False | d # ds \<Rightarrow> d = c \<and> pattern_splits ts ds caps)"
| "pattern_splits (Wildcard # ts) s caps =
     (case caps of
        [] \<Rightarrow> False
      | (name, w) # rest \<Rightarrow>
          name = ''splat'' \<and> list_all (\<lambda>c. \<not> line_terminator c) w \<and>
          prefix w s \<and> pattern_splits ts (drop (length w) s) rest)"
| "pattern_splits (Named n # ts) s caps =
     (case caps of
        [] \<Rightarrow> False
      | (name, w) # rest \<Rightarrow>
          name = n \<and> w \<noteq> [] \<and> list_all (\<lambda>c. c \<noteq> CHR ''/'') w \<and>
          prefix w s \<and> pattern_splits ts (drop (length w) s) rest)"

section \<open>Examples used by the closed theorems\<close>

definition client_context :: plugin_context where
  "client_context = \<lparr>environment_name = ''client'', emitted = []\<rparr>"

definition plain_plugin :: plugin where
  "plain_plugin = \<lparr>root = ''/app'', pagesRoot = ''src/pages'', redirects = []\<rparr>"

definition one_page_glob :: "string \<Rightarrow> string list" where
  "one_page_glob pat =
     (if pat = ''/app/src/pages/**/*.html'' then [''/app/src/pages/contact/index.html''] else [])"

text \<open>
  The redirects \<open>{'/about': '/about-us', '/blog/:slug': 'posts/:slug.html', '/blog/*':
  '/blog-index'}\<close> as compiled, a project whose only page is \<open>posts/hello.html\<close>, and one
  whose only page is \<open>blog-index.html\<close>.
\<close>

definition blog_redirects :: "redirect list" where
  "blog_redirects =
     [\<lparr>regex = map Lit ''/about'', target = ''/about-us''\<rparr>,
      \<lparr>regex = map Lit ''/blog/'' @ [NamedGroup ''slug'' NotSlashPlus], target = ''posts/:slug.html''\<rparr>,
      \<lparr>regex = map Lit ''/blog/'' @ [NamedGroup ''splat'' AnyGreedy], target = ''/blog-index''\<rparr>]"

definition blog_plugin :: plugin where
  "blog_plugin = \<lparr>root = ''/app'', pagesRoot = ''src/pages'', redirects = blog_redirects\<rparr>"

definition only_post :: "string \<Rightarrow> bool" where
  "only_post f \<longleftrightarrow> f = ''/app/src/pages/posts/hello.html''"

definition only_blog_index :: "string \<Rightarrow> bool" where
  "only_blog_index f \<longleftrightarrow> f = ''/app/src/pages/blog-index.html''"

text \<open>The redirect \<open>{'/user/:id': '/user-page?id=:id'}\<close> as compiled.\<close>

definition user_rule :: redirect where
  "user_rule =
     \<lparr>regex = map Lit ''/user/'' @ [NamedGroup ''id'' NotSlashPlus], target = ''/user-page?id=:id''\<rparr>"

definition user_plugin :: plugin where
  "user_plugin = \<lparr>root = ''/app'', pagesRoot = ''src/pages'', redirects = [user_rule]\<rparr>"

definition only_user_page :: "string \<Rightarrow> bool" where
  "only_user_page f \<longleftrightarrow> f = ''/app/src/pages/user-page.html''"

definition only_page_named_with_query :: "string \<Rightarrow> bool" where
  "only_page_named_with_query f \<longleftrightarrow> f = ''/app/src/pages/user-page?id=42.html''"

text \<open>The redirect \<open>{'/v1.0/(beta)': '/beta'}\<close> as compiled: a pattern without tokens.\<close>

definition beta_rule :: redirect where
  "beta_rule = \<lparr>regex = map Lit ''/v1.0/(beta)'', target = ''/beta''\<rparr>"

text \<open>
  A project with the pages \<open>contact.html\<close> and \<open>contact/index.html\<close> and the image
  \<open>contact/logo.png\<close>, with and without an image \<open>logo.png\<close> at its root; a URL parser
  that knows one referrer; and requests for the image and for a document.
\<close>

definition contact_files :: "string \<Rightarrow> bool" where
  "contact_files f \<longleftrightarrow>
     f = ''/app/src/pages/contact.html'' \<or> f = ''/app/src/pages/contact/index.html'' \<or>
     f = ''/app/src/pages/contact/logo.png''"

definition contact_files_and_logo :: "string \<Rightarrow> bool" where
  "contact_files_and_logo f \<longleftrightarrow> contact_files f \<or> f = ''/app/logo.png''"

definition localhost_pathname :: "string \<Rightarrow> string option" where
  "localhost_pathname u =
     (if u = ''http://localhost:5173/contact/'' then Some ''/contact/'' else None)"

definition asset_request :: "string \<Rightarrow> request" where
  "asset_request dest =
     \<lparr>url = ''/logo.png?v=1'', originalUrl = Some ''/logo.png?v=1'',
      headers = [(''sec-fetch-dest'', dest), (''referer'', ''http://localhost:5173/contact/'')]\<rparr>"

definition document_request :: "string \<Rightarrow> request" where
  "document_request u =
     \<lparr>url = u, originalUrl = Some u, headers = [(''sec-fetch-dest'', ''document'')]\<rparr>"

section \<open>The compiled expression, token by token\<close>

lemma word_not_regex: "word_char c \<Longrightarrow> \<not> regex_char c"
  by (auto simp: word_char_def regex_char_def backslash_def)

lemma ident_start_word: "ident_start c \<Longrightarrow> word_char c"
  by (auto simp: word_char_def ident_start_def)

lemma backslash_not_word: "\<not> word_char backslash"
  by (simp add: word_char_def backslash_def)

lemma escape_pattern_Cons: "escape_pattern (c # cs) = escape_char c @ escape_pattern cs"
  by (simp add: escape_pattern_def)

lemma escape_pattern_Nil: "escape_pattern [] = []"
  by (simp add: escape_pattern_def)

lemma starts_name_escape: "starts_name (escape_pattern cs) = starts_name cs"
proof (cases cs)
  case Nil
  then show ?thesis by (simp add: escape_pattern_Nil)
next
  case (Cons d ds)
  show ?thesis
  proof (cases "regex_char d")
    case True
    then have "\<not> ident_start d" using word_not_regex ident_start_word by blast
    moreover have "\<not> ident_start backslash" using backslash_not_word ident_start_word by blast
    ultimately show ?thesis using True
      by (simp add: Cons escape_pattern_Cons escape_char_def starts_name_def)
  next
    case False
    then show ?thesis by (simp add: Cons escape_pattern_Cons escape_char_def starts_name_def)
  qed
qed

lemma takeWhile_escape: "takeWhile word_char (escape_pattern cs) = takeWhile word_char cs"
proof (induction cs)
  case Nil
  show ?case by (simp add: escape_pattern_Nil)
next
  case (Cons c cs)
  show ?case
  proof (cases "word_char c")
    case True
    then show ?thesis using Cons word_not_regex
      by (simp add: escape_pattern_Cons escape_char_def)
  next
    case False
    then show ?thesis using backslash_not_word
      by (simp add: escape_pattern_Cons escape_char_def)
  qed
qed

lemma dropWhile_escape: "dropWhile word_char (escape_pattern cs) = escape_pattern (dropWhile word_char cs)"
proof (induction cs)
  case Nil
  show ?case by (simp add: escape_pattern_Nil)
next
  case (Cons c cs)
  show ?case
  proof (cases "word_char c")
    case True
    then show ?thesis using Cons word_not_regex
      by (simp add: escape_pattern_Cons escape_char_def)
  next
    case False
    then show ?thesis using backslash_not_word
      by (simp add: escape_pattern_Cons escape_char_def)
  qed
qed

lemma compile_loop_star: "compile_loop (CHR ''*'' # cs) = ''(?<splat>.*)'' @ compile_loop cs"
  by (subst compile_loop.simps) simp

lemma compile_loop_placeholder:
  "starts_name cs \<Longrightarrow>
   compile_loop (CHR '':'' # cs) = ''(?<'' @ takeWhile word_char cs @ ''>[^/]+)'' @ compile_loop (dropWhile word_char cs)"
  by (subst compile_loop.simps) (simp add: starts_name_def)

lemma compile_loop_literal:
  "c \<noteq> CHR ''*'' \<Longrightarrow> \<not> (c = CHR '':'' \<and> starts_name cs) \<Longrightarrow>
   compile_loop (c # cs) = c # compile_loop cs"
  by (subst compile_loop.simps, subst (2) compile_loop.simps)
     (auto simp: starts_name_def split: option.splits)

lemma compile_loop_escape_char:
  "c \<noteq> CHR ''*'' \<Longrightarrow> \<not> (c = CHR '':'' \<and> starts_name cs) \<Longrightarrow>
   compile_loop (escape_char c @ escape_pattern cs) = escape_char c @ compile_loop (escape_pattern cs)"
proof (cases "regex_char c")
  case True
  assume "c \<noteq> CHR ''*''"
  have b: "backslash \<noteq> CHR ''*''" "backslash \<noteq> CHR '':''" by (simp_all add: backslash_def)
  from True have c: "c \<noteq> CHR '':''" by (auto simp: regex_char_def backslash_def)
  show ?thesis using True b c \<open>c \<noteq> CHR ''*''\<close>
    by (simp add: escape_char_def compile_loop_literal)
next
  case False
  assume "c \<noteq> CHR ''*''" "\<not> (c = CHR '':'' \<and> starts_name cs)"
  then show ?thesis using False
    by (simp add: escape_char_def compile_loop_literal starts_name_escape)
qed

lemma escape_colon: "escape_char CHR '':'' = '':''" and escape_star: "escape_char CHR ''*'' = ''*''"
  by (simp_all add: escape_char_def regex_char_def backslash_def)

lemma compile_loop_tokens:
  "compile_loop (escape_pattern pattern) = concat (map render_token (pattern_tokens pattern))"
proof (induction pattern rule: pattern_tokens.induct)
  case 1
  show ?case by (subst compile_loop.simps) (simp add: escape_pattern_Nil)
next
  case (2 c cs)
  show ?case
  proof (cases "c = CHR ''*''")
    case True
    with 2 show ?thesis
      by (simp add: escape_pattern_Cons escape_star compile_loop_star)
  next
    case star: False
    show ?thesis
    proof (cases "c = CHR '':'' \<and> starts_name cs")
      case True
      then have s: "starts_name (escape_pattern cs)" by (simp add: starts_name_escape)
      from True star 2 show ?thesis
        by (simp add: escape_pattern_Cons escape_colon compile_loop_placeholder [OF s]
            takeWhile_escape dropWhile_escape)
    next
      case False
      with star have t: "pattern_tokens (c # cs) = Literal c # pattern_tokens cs" by auto
      from False star 2 have "compile_loop (escape_pattern cs) = concat (map render_token (pattern_tokens cs))"
        by blast
      with compile_loop_escape_char [OF star False] show ?thesis
        by (simp add: escape_pattern_Cons t del: pattern_tokens.simps)
    qed
  qed
qed


lemma pattern_tokens_wf: "list_all wf_token (pattern_tokens pattern)"
proof (induction pattern rule: pattern_tokens.induct)
  case 1
  show ?case by simp
next
  case (2 c cs)
  show ?case
  proof (cases "c = CHR ''*''")
    case True
    with 2 show ?thesis by simp
  next
    case star: False
    show ?thesis
    proof (cases "c = CHR '':'' \<and> starts_name cs")
      case True
      then obtain d ds where cs: "cs = d # ds" and d: "ident_start d"
        by (auto simp: starts_name_def split: list.splits)
      have "list_all word_char (takeWhile word_char cs)"
        by (auto simp: list_all_iff dest: set_takeWhileD)
      moreover have "takeWhile word_char cs = d # takeWhile word_char ds"
        using d by (simp add: cs ident_start_word)
      ultimately show ?thesis using True star 2 d by simp
    next
      case False
      with star 2 show ?thesis by auto
    qed
  qed
qed

lemma parse_group_named:
  assumes "n \<noteq> []" "ident_start (hd n)" "list_all word_char n"
  shows "parse_group (''?<'' @ n @ ''>[^/]+)'' @ rest) = Some (NamedGroup n NotSlashPlus, rest)"
    and "parse_group (''?<'' @ n @ ''>.*)'' @ rest) = Some (NamedGroup n AnyGreedy, rest)"
proof -
  have w: "\<And>x. x \<in> set n \<Longrightarrow> word_char x" using assms(3) by (simp add: list_all_iff)
  have g: "\<not> word_char CHR ''>''" by (simp add: word_char_def)
  have t: "\<And>ys. takeWhile word_char (n @ CHR ''>'' # ys) = n"
    using w g by (simp add: takeWhile_append2)
  have d: "\<And>ys. dropWhile word_char (n @ CHR ''>'' # ys) = CHR ''>'' # ys"
    using w g by (simp add: dropWhile_append2)
  show "parse_group (''?<'' @ n @ ''>[^/]+)'' @ rest) = Some (NamedGroup n NotSlashPlus, rest)"
    using assms(1,2) by (simp add: parse_group_def t d)
  show "parse_group (''?<'' @ n @ ''>.*)'' @ rest) = Some (NamedGroup n AnyGreedy, rest)"
    using assms(1,2) by (simp add: parse_group_def t d)
qed

lemma parse_body_escape_char:
  "c \<noteq> CHR ''*'' \<Longrightarrow> parse_body (escape_char c @ rest) = map_option (Cons (Lit c)) (parse_body rest)"
  by (auto simp: escape_char_def syntax_char_def regex_char_def backslash_def)

lemma parse_body_tokens:
  "list_all wf_token ts \<Longrightarrow>
   parse_body (concat (map render_token ts) @ ''$'') = Some (map node_of ts)"
proof (induction ts)
  case Nil
  show ?case by simp
next
  case (Cons t ts)
  then have ih: "parse_body (concat (map render_token ts) @ ''$'') = Some (map node_of ts)"
    by simp
  show ?case
  proof (cases t)
    case (Literal c)
    with Cons.prems have "c \<noteq> CHR ''*''" by simp
    then show ?thesis using ih by (simp add: Literal parse_body_escape_char)
  next
    case Wildcard
    have "parse_group (''?<'' @ ''splat'' @ ''>.*)'' @ concat (map render_token ts) @ ''$'')
          = Some (NamedGroup ''splat'' AnyGreedy, concat (map render_token ts) @ ''$'')"
      by (rule parse_group_named) (simp_all add: ident_start_def word_char_def)
    then show ?thesis using ih by (simp add: Wildcard backslash_def)
  next
    case (Named n)
    with Cons.prems have n: "n \<noteq> []" "ident_start (hd n)" "list_all word_char n" by simp_all
    have "parse_group (''?<'' @ n @ ''>[^/]+)'' @ concat (map render_token ts) @ ''$'')
          = Some (NamedGroup n NotSlashPlus, concat (map render_token ts) @ ''$'')"
      by (rule parse_group_named) (rule n)+
    then show ?thesis using ih by (simp add: Named backslash_def)
  qed
qed

lemma new_RegExp_tokens:
  "new_RegExp (regexStr pattern) =
     (if distinct (group_names (map node_of (pattern_tokens pattern)))
      then Inr (map node_of (pattern_tokens pattern)) else Inl SyntaxError)"
  using parse_body_tokens [OF pattern_tokens_wf, of pattern]
  by (simp add: new_RegExp_def regexStr_def compile_loop_tokens)


lemma first_some_SomeD:
  "first_some (map f ks) = Some y \<Longrightarrow> \<exists>k \<in> set ks. f k = Some y"
proof (induction ks)
  case Nil
  then show ?case by simp
next
  case (Cons k ks)
  then show ?case by (cases "f k") auto
qed

lemma first_some_exists:
  "k \<in> set ks \<Longrightarrow> f k = Some y \<Longrightarrow> \<exists>z. first_some (map f ks) = Some z"
proof (induction ks)
  case Nil
  then show ?case by simp
next
  case (Cons j ks)
  then show ?case by (cases "f j") auto
qed

lemma take_run:
  "k \<le> length (takeWhile P s) \<Longrightarrow> list_all P (take k s)"
proof -
  assume k: "k \<le> length (takeWhile P s)"
  have "take k s = take k (takeWhile P s @ dropWhile P s)" by simp
  also have "\<dots> = take k (takeWhile P s)" using k by (simp del: takeWhile_dropWhile_id)
  finally have "set (take k s) \<subseteq> set (takeWhile P s)" by (simp add: set_take_subset)
  then show ?thesis by (auto simp: list_all_iff dest: set_takeWhileD)
qed

lemma run_length:
  "list_all P w \<Longrightarrow> length w \<le> length (takeWhile P (w @ s))"
  by (simp add: takeWhile_append2 list_all_iff)

lemma group_match_SomeD:
  assumes "regex_match (NamedGroup name body # nodes) s = Some caps"
  obtains k rest where "body_min body \<le> k" and "k \<le> length s"
    and "list_all (body_char body) (take k s)"
    and "caps = (name, take k s) # rest" and "regex_match nodes (drop k s) = Some rest"
proof -
  from assms obtain k where k: "k \<in> set (rev [body_min body ..< Suc (length (takeWhile (body_char body) s))])"
    and m: "map_option (Cons (name, take k s)) (regex_match nodes (drop k s)) = Some caps"
    by (auto dest!: first_some_SomeD simp del: upt_Suc)
  from m obtain rest where c: "caps = (name, take k s) # rest"
    and m': "regex_match nodes (drop k s) = Some rest" by auto
  from k have k1: "body_min body \<le> k" and k2: "k \<le> length (takeWhile (body_char body) s)" by auto
  from k2 have a: "list_all (body_char body) (take k s)" by (rule take_run)
  have "k \<le> length s" using k2 length_takeWhile_le [of "body_char body" s] by linarith
  with k1 a c m' show ?thesis using that by blast
qed

lemma group_match_exists:
  assumes "list_all (body_char body) w" and "body_min body \<le> length w"
    and "regex_match nodes s = Some rest"
  shows "\<exists>caps. regex_match (NamedGroup name body # nodes) (w @ s) = Some caps"
proof -
  let ?f = "\<lambda>k. map_option (Cons (name, take k (w @ s))) (regex_match nodes (drop k (w @ s)))"
  from assms(1) have "length w \<le> length (takeWhile (body_char body) (w @ s))" by (rule run_length)
  with assms(2) have "length w \<in> set (rev [body_min body ..< Suc (length (takeWhile (body_char body) (w @ s)))])"
    by auto
  moreover have "?f (length w) = Some ((name, w) # rest)" using assms(3) by simp
  ultimately have "\<exists>z. first_some (map ?f (rev [body_min body ..< Suc (length (takeWhile (body_char body) (w @ s)))])) = Some z"
    by (rule first_some_exists)
  then show ?thesis by (simp del: upt_Suc)
qed

lemma regex_match_sound:
  "regex_match (map node_of ts) s = Some caps \<Longrightarrow> pattern_splits ts s caps"
proof (induction ts arbitrary: s caps)
  case Nil
  then show ?case by (simp split: if_splits)
next
  case (Cons t ts)
  show ?case
  proof (cases t)
    case (Literal c)
    with Cons.prems obtain ds where s: "s = c # ds" and m: "regex_match (map node_of ts) ds = Some caps"
      by (auto split: list.splits if_splits)
    from Cons.IH [OF m] show ?thesis by (simp add: Literal s)
  next
    case Wildcard
    with Cons.prems have "regex_match (NamedGroup ''splat'' AnyGreedy # map node_of ts) s = Some caps"
      by simp
    then obtain k rest where k: "k \<le> length s" and a: "list_all (body_char AnyGreedy) (take k s)"
      and c: "caps = (''splat'', take k s) # rest" and m: "regex_match (map node_of ts) (drop k s) = Some rest"
      by (rule group_match_SomeD)
    from a have a': "list_all (\<lambda>c. \<not> line_terminator c) (take k s)" by (simp add: list_all_iff)
    from Cons.IH [OF m] k a' show ?thesis
      by (simp add: Wildcard c take_is_prefix min_absorb2)
  next
    case (Named n)
    with Cons.prems have "regex_match (NamedGroup n NotSlashPlus # map node_of ts) s = Some caps"
      by simp
    then obtain k rest where k1: "body_min NotSlashPlus \<le> k" and k: "k \<le> length s"
      and a: "list_all (body_char NotSlashPlus) (take k s)"
      and c: "caps = (n, take k s) # rest" and m: "regex_match (map node_of ts) (drop k s) = Some rest"
      by (rule group_match_SomeD)
    from a have a': "list_all (\<lambda>c. c \<noteq> CHR ''/'') (take k s)" by (simp add: list_all_iff)
    from k1 k have ne: "take k s \<noteq> []" by auto
    from Cons.IH [OF m] k a' ne show ?thesis
      by (simp add: Named c take_is_prefix min_absorb2)
  qed
qed

lemma regex_match_complete:
  "pattern_splits ts s caps \<Longrightarrow> \<exists>caps'. regex_match (map node_of ts) s = Some caps'"
proof (induction ts arbitrary: s caps)
  case Nil
  then show ?case by simp
next
  case (Cons t ts)
  show ?case
  proof (cases t)
    case (Literal c)
    with Cons.prems obtain ds where s: "s = c # ds" and p: "pattern_splits ts ds caps"
      by (auto split: list.splits)
    from Cons.IH [OF p] show ?thesis by (simp add: Literal s)
  next
    case Wildcard
    with Cons.prems obtain w rest s' where s: "s = w @ s'"
      and a: "list_all (\<lambda>c. \<not> line_terminator c) w" and p: "pattern_splits ts s' rest"
      by (auto simp: prefix_def split: list.splits)
    from Cons.IH [OF p] obtain rest' where m: "regex_match (map node_of ts) s' = Some rest'" by blast
    from a have "list_all (body_char AnyGreedy) w" by (simp add: list_all_iff)
    from group_match_exists [OF this _ m] show ?thesis by (simp add: Wildcard s)
  next
    case (Named n)
    with Cons.prems obtain w rest s' where s: "s = w @ s'" and ne: "w \<noteq> []"
      and a: "list_all (\<lambda>c. c \<noteq> CHR ''/'') w" and p: "pattern_splits ts s' rest"
      by (auto simp: prefix_def split: list.splits)
    from Cons.IH [OF p] obtain rest' where m: "regex_match (map node_of ts) s' = Some rest'" by blast
    from a have b: "list_all (body_char NotSlashPlus) w" by (simp add: list_all_iff)
    from ne have l: "body_min NotSlashPlus \<le> length w" by (cases w) auto
    from group_match_exists [OF b l m] show ?thesis by (simp add: Named s)
  qed
qed

lemma count_wildcards: "count_list (pattern_tokens pattern) Wildcard = count_list pattern CHR ''*''"
proof (induction pattern rule: pattern_tokens.induct)
  case 1
  show ?case by simp
next
  case (2 c cs)
  show ?case
  proof (cases "c = CHR ''*''")
    case True
    with 2 show ?thesis by simp
  next
    case star: False
    show ?thesis
    proof (cases "c = CHR '':'' \<and> starts_name cs")
      case True
      have "count_list (takeWhile word_char cs) CHR ''*'' = 0"
        by (auto simp: count_list_0_iff word_char_def dest!: set_takeWhileD)
      moreover have "count_list (takeWhile word_char cs @ dropWhile word_char cs) CHR ''*''
          = count_list (takeWhile word_char cs) CHR ''*'' + count_list (dropWhile word_char cs) CHR ''*''"
        by (simp only: count_list_append)
      ultimately have "count_list cs CHR ''*'' = count_list (dropWhile word_char cs) CHR ''*''"
        by simp
      with True star 2 show ?thesis by simp
    next
      case False
      with star 2 show ?thesis by auto
    qed
  qed
qed

lemma count_splat_names:
  "count_list ts Wildcard \<le> count_list (group_names (map node_of ts)) ''splat''"
proof (induction ts)
  case Nil
  show ?case by simp
next
  case (Cons t ts)
  then show ?case by (cases t) auto
qed

lemma count_twice_not_distinct: "2 \<le> count_list xs x \<Longrightarrow> \<not> distinct xs"
proof (induction xs)
  case Nil
  then show ?case by simp
next
  case (Cons y ys)
  show ?case
  proof (cases "y = x")
    case True
    with Cons.prems have "1 \<le> count_list ys x" by simp
    then have "x \<in> set ys" by (metis count_list_0_iff not_one_le_zero)
    with True show ?thesis by simp
  next
    case False
    with Cons show ?thesis by simp
  qed
qed

lemma compile_redirect_error: "compile_redirect entry = Inl e \<Longrightarrow> e = SyntaxError"
  by (cases entry) (auto simp: compile_redirect_def new_RegExp_tokens split: if_splits sum.splits)

lemma compile_never_outside: "compile_redirect entry \<noteq> Inl Outside_model"
  using compile_redirect_error by fastforce

lemma compile_redirects_error: "compile_redirects entries = Inl e \<Longrightarrow> e = SyntaxError"
  by (induction entries arbitrary: e) (auto split: sum.splits dest: compile_redirect_error)

lemma compile_redirects_member_fails:
  "entry \<in> set entries \<Longrightarrow> compile_redirect entry = Inl SyntaxError \<Longrightarrow>
   compile_redirects entries = Inl SyntaxError"
proof (induction entries)
  case Nil
  then show ?case by simp
next
  case (Cons a entries)
  show ?case
  proof (cases "compile_redirect a")
    case (Inl e)
    then show ?thesis using compile_redirect_error by auto
  next
    case (Inr ma)
    with Cons have "compile_redirects entries = Inl SyntaxError" by auto
    with Inr show ?thesis by simp
  qed
qed

section \<open>Two splats in one pattern\<close>

text \<open>
  C10. A pattern with two or more \<open>*\<close> does not compile: every \<open>*\<close> becomes a group named
  \<open>splat\<close>, the expression holds that name twice, and \<open>new RegExp\<close> throws a SyntaxError;
  so does the callback for that entry, and with it the initialization of a plugin whose
  redirects hold that entry.
\<close>

theorem two_splats_fail:
  assumes "2 \<le> count_list pattern CHR ''*''"
  shows "new_RegExp (regexStr pattern) = Inl SyntaxError \<and>
         compile_redirect (pattern, tgt) = Inl SyntaxError \<and>
         ((pattern, tgt) \<in> set (opt_redirects opts) \<longrightarrow> viteMultiSpa opts = Inl SyntaxError)"
proof -
  from assms have "2 \<le> count_list (group_names (map node_of (pattern_tokens pattern))) ''splat''"
    using count_splat_names [of "pattern_tokens pattern"] by (simp add: count_wildcards)
  then have "\<not> distinct (group_names (map node_of (pattern_tokens pattern)))"
    by (rule count_twice_not_distinct)
  then have r: "new_RegExp (regexStr pattern) = Inl SyntaxError" by (simp add: new_RegExp_tokens)
  then have c: "compile_redirect (pattern, tgt) = Inl SyntaxError" by (simp add: compile_redirect_def)
  have "(pattern, tgt) \<in> set (opt_redirects opts) \<Longrightarrow> viteMultiSpa opts = Inl SyntaxError"
    using compile_redirects_member_fails [OF _ c] by (simp add: viteMultiSpa_def)
  with r c show ?thesis by blast
qed

theorem two_splats_fail_witness:
  "2 \<le> count_list ''/files/*/raw/*'' CHR ''*'' \<and>
   regexStr ''/files/*/raw/*'' = ''^/files/(?<splat>.*)/raw/(?<splat>.*)$'' \<and>
   new_RegExp ''^/files/(?<splat>.*)/raw/(?<splat>.*)$'' = Inl SyntaxError \<and>
   viteMultiSpa \<lparr>opt_pagesRoot = None,
                 opt_redirects = [(''/blog/*'', ''/blog-post''), (''/files/*/raw/*'', ''/file'')]\<rparr>
     = Inl SyntaxError"
proof -
  have h: "2 \<le> count_list ''/files/*/raw/*'' CHR ''*''" by simp
  have r: "regexStr ''/files/*/raw/*'' = ''^/files/(?<splat>.*)/raw/(?<splat>.*)$''" by code_simp
  from two_splats_fail [OF h, of "''/file''"
      "\<lparr>opt_pagesRoot = None,
        opt_redirects = [(''/blog/*'', ''/blog-post''), (''/files/*/raw/*'', ''/file'')]\<rparr>"]
  show ?thesis using h r by simp
qed

section \<open>What a compiled pattern matches\<close>

lemma compile_redirect_regex:
  "compile_redirect (pattern, tgt) = Inr m \<Longrightarrow>
   regex m = map node_of (pattern_tokens pattern) \<and> target m = tgt"
  by (auto simp: compile_redirect_def new_RegExp_tokens split: if_splits)

lemma redirect_match_None: "(redirect_match m path = None) = (regex_match (regex m) path = None)"
  by (simp add: redirect_match_def split: option.splits)

lemma regex_match_iff_splits:
  "(regex_match (map node_of ts) s \<noteq> None) = (\<exists>caps. pattern_splits ts s caps)"
  using regex_match_sound regex_match_complete by blast

lemma splits_literals: "pattern_splits (map Literal p) s caps = (s = p \<and> caps = [])"
proof (induction p arbitrary: s)
  case Nil
  show ?case by simp
next
  case (Cons c p)
  show ?case by (cases s) (auto simp: Cons)
qed

lemma splits_last_named:
  "pattern_splits [Named n] s caps =
     (s \<noteq> [] \<and> list_all (\<lambda>c. c \<noteq> CHR ''/'') s \<and> caps = [(n, s)])"
proof
  assume "pattern_splits [Named n] s caps"
  then obtain w where c: "caps = [(n, w)]" and ne: "w \<noteq> []"
    and a: "list_all (\<lambda>c. c \<noteq> CHR ''/'') w" and p: "prefix w s" and d: "length s \<le> length w"
    by (auto split: list.splits)
  from p obtain z where "s = w @ z" by (auto simp: prefix_def)
  with d have "w = s" by simp
  with c ne a show "s \<noteq> [] \<and> list_all (\<lambda>c. c \<noteq> CHR ''/'') s \<and> caps = [(n, s)]" by simp
next
  assume "s \<noteq> [] \<and> list_all (\<lambda>c. c \<noteq> CHR ''/'') s \<and> caps = [(n, s)]"
  then show "pattern_splits [Named n] s caps" by simp
qed

text \<open>
  C7. For a pattern that compiles, the matcher succeeds on a path exactly when the
  whole path splits along the tokens of the pattern, every character of the pattern
  that is no \<open>*\<close> and belongs to no \<open>:name\<close> standing for itself (whatever it means in a
  regular expression); and when the pattern has no token at all, exactly when the path
  is the pattern.
\<close>

theorem compiled_pattern_anchored_literal:
  assumes "compile_redirect (pattern, tgt) = Inr m"
  shows "(redirect_match m path \<noteq> None) = (\<exists>caps. pattern_splits (pattern_tokens pattern) path caps) \<and>
         (pattern_tokens pattern = map Literal pattern \<longrightarrow>
            (redirect_match m path \<noteq> None) = (path = pattern))"
proof -
  from compile_redirect_regex [OF assms] have r: "regex m = map node_of (pattern_tokens pattern)"
    by simp
  have a: "(redirect_match m path \<noteq> None) = (\<exists>caps. pattern_splits (pattern_tokens pattern) path caps)"
    by (simp add: redirect_match_None r regex_match_iff_splits del: not_None_eq)
  show ?thesis using a by (auto simp: splits_literals)
qed

theorem compiled_pattern_anchored_literal_witness:
  "compile_redirect (''/v1.0/(beta)'', ''/beta'') = Inr beta_rule \<and>
   redirect_match beta_rule ''/v1.0/(beta)'' \<noteq> None \<and>
   redirect_match beta_rule ''/v1x0/(beta)'' = None \<and>
   redirect_match beta_rule ''/v1.0/beta'' = None \<and>
   redirect_match beta_rule ''/v1.0/(beta)/more'' = None \<and>
   redirect_match beta_rule ''/pre/v1.0/(beta)'' = None"
proof -
  have c: "compile_redirect (''/v1.0/(beta)'', ''/beta'') = Inr beta_rule" by code_simp
  have t: "pattern_tokens ''/v1.0/(beta)'' = map Literal ''/v1.0/(beta)''" by code_simp
  from compiled_pattern_anchored_literal [OF c] t
  have "\<And>path. (redirect_match beta_rule path = None) = (path \<noteq> ''/v1.0/(beta)'')"
    by blast
  with c show ?thesis by simp
qed

text \<open>
  C8, as the code has it. A placeholder takes a non-empty run of characters other
  than the slash. For a pattern that compiles: the matcher succeeds on every path
  that splits along the tokens of the pattern, with a non-empty run without a slash
  for every placeholder; whatever it captures is such a split of the whole path; and
  when the path splits along the tokens in exactly one way, it captures every run of
  that split under the name of its placeholder.
\<close>

theorem placeholder_captures_run:
  assumes "compile_redirect (pattern, tgt) = Inr m"
  shows "(pattern_splits (pattern_tokens pattern) path caps \<longrightarrow>
            (\<exists>caps'. regex_match (regex m) path = Some caps')) \<and>
         (regex_match (regex m) path = Some caps \<longrightarrow>
            pattern_splits (pattern_tokens pattern) path caps) \<and>
         (pattern_splits (pattern_tokens pattern) path caps \<and>
          (\<forall>caps'. pattern_splits (pattern_tokens pattern) path caps' \<longrightarrow> caps' = caps)
          \<longrightarrow> regex_match (regex m) path = Some caps)"
proof -
  from compile_redirect_regex [OF assms] have r: "regex m = map node_of (pattern_tokens pattern)"
    by simp
  show ?thesis
    using regex_match_sound [of "pattern_tokens pattern" path]
      regex_match_complete [of "pattern_tokens pattern" path caps]
    by (auto simp: r)
qed

theorem placeholder_captures_run_witness:
  "compile_redirect (''/user/:id'', ''/user-page?id=:id'') = Inr user_rule \<and>
   pattern_splits (pattern_tokens ''/user/:id'') ''/user/42'' [(''id'', ''42'')] \<and>
   regex_match (regex user_rule) ''/user/42'' = Some [(''id'', ''42'')]"
proof -
  have c: "compile_redirect (''/user/:id'', ''/user-page?id=:id'') = Inr user_rule" by code_simp
  have t: "pattern_tokens ''/user/:id'' =
             [Literal CHR ''/'', Literal CHR ''u'', Literal CHR ''s'', Literal CHR ''e'',
              Literal CHR ''r'', Literal CHR ''/'', Named ''id'']"
    by code_simp
  have u: "\<And>caps. pattern_splits (pattern_tokens ''/user/:id'') ''/user/42'' caps
             = (caps = [(''id'', ''42'')])"
    unfolding t by (simp add: splits_last_named del: pattern_splits.simps(4))
  from placeholder_captures_run [OF c, of "''/user/42''" "[(''id'', ''42'')]"] u
  have "regex_match (regex user_rule) ''/user/42'' = Some [(''id'', ''42'')]" by simp
  with c u show ?thesis by simp
qed

text \<open>
  C8 as stated fails: the pattern \<open>/user/:id\<close> does not match the path \<open>/user/\<close>, where the
  run at the placeholder is empty.
\<close>

theorem placeholder_empty_run_counterexample:
  "compile_redirect (''/user/:id'', ''/user-page?id=:id'') = Inr user_rule \<and>
   regex_match (regex user_rule) ''/user/'' = None \<and>
   redirect_match user_rule ''/user/'' = None"
  by code_simp

section \<open>The first redirect that matches\<close>

lemma posix_normalize_nonempty: "posix_normalize s \<noteq> []"
  by (simp add: posix_normalize_def Let_def)

lemma normalizePath_nonempty: "normalizePath s \<noteq> []"
  by (simp add: normalizePath_def posix_normalize_nonempty)

lemma resolve_loop_skip:
  "list_all (\<lambda>r. regex_match (regex r) path = None) earlier \<Longrightarrow>
   resolve_loop existsSync p (earlier @ rest) path = resolve_loop existsSync p rest path"
  by (induction earlier) (simp_all add: redirect_match_def)

lemma strip_html_suffix: "strip_html (page @ ''.html'') = page"
  by (simp add: strip_html_def suffix_def)

lemma strip_html_other: "\<not> suffix ''.html'' s \<Longrightarrow> strip_html s = s"
  by (simp add: strip_html_def)

text \<open>
  C3. Let the expressions of the redirects declared before \<open>m\<close> not match the path and
  that of \<open>m\<close> match it, with the groups \<open>groups\<close>. Let \<open>tgt\<close> be the target of \<open>m\<close> with its
  groups substituted, normalized; \<open>slashed\<close> be \<open>tgt\<close>, with a slash put before it when it
  does not begin with one; and \<open>page\<close> be \<open>slashed\<close> without its final \<open>.html\<close> when it ends
  so, and \<open>slashed\<close> itself when it does not. Then \<open>resolveRedirect\<close> returns what the page
  lookup returns for \<open>page\<close>, whatever the redirects declared after \<open>m\<close> are: they are not
  consulted, and when that page is not on disk the result is \<open>undefined\<close>.
\<close>

theorem first_matching_redirect_decides:
  assumes "redirects p = earlier @ m # later"
      and "list_all (\<lambda>r. regex_match (regex r) path = None) earlier"
      and "regex_match (regex m) path = Some groups"
      and "tgt = normalizePath (substitute_groups (target m) groups)"
      and "slashed = (if prefix ''/'' tgt then tgt else ''/'' @ tgt)"
      and "slashed = page @ ''.html'' \<or> \<not> suffix ''.html'' slashed \<and> page = slashed"
  shows "resolveRedirect existsSync p path = resolvePageUrl existsSync p page \<and>
         (resolvePageUrl existsSync p page = None \<longrightarrow> resolveRedirect existsSync p path = None)"
proof -
  have s: "strip_html slashed = page"
    using assms(6) strip_html_suffix [of page] strip_html_other [of slashed] by auto
  have rm: "redirect_match m path = Some tgt"
    using assms(3,4) by (simp add: redirect_match_def)
  have ne: "tgt \<noteq> []"
    using assms(4) normalizePath_nonempty by simp
  have "resolve_loop existsSync p (m # later) path
          = resolvePageUrl existsSync p (strip_html slashed)"
    unfolding assms(5) using rm ne by (simp add: Let_def)
  then have "resolve_loop existsSync p (m # later) path = resolvePageUrl existsSync p page"
    by (simp only: s)
  then have "resolveRedirect existsSync p path = resolvePageUrl existsSync p page"
    using resolve_loop_skip [OF assms(2), of existsSync p "m # later"]
    by (simp add: resolveRedirect_def assms(1))
  then show ?thesis by simp
qed

theorem first_matching_redirect_decides_witness:
  "compile_redirects [(''/about'', ''/about-us''), (''/blog/:slug'', ''posts/:slug.html''),
                      (''/blog/*'', ''/blog-index'')] = Inr (redirects blog_plugin) \<and>
   regex_match (map Lit ''/about'') ''/blog/hello'' = None \<and>
   regex_match (map Lit ''/blog/'' @ [NamedGroup ''slug'' NotSlashPlus]) ''/blog/hello''
     = Some [(''slug'', ''hello'')] \<and>
   regex_match (map Lit ''/blog/'' @ [NamedGroup ''splat'' AnyGreedy]) ''/blog/hello''
     = Some [(''splat'', ''hello'')] \<and>
   normalizePath (substitute_groups ''posts/:slug.html'' [(''slug'', ''hello'')]) = ''posts/hello.html'' \<and>
   resolvePageUrl only_post blog_plugin ''/posts/hello'' = Some ''/src/pages/posts/hello'' \<and>
   resolveRedirect only_post blog_plugin ''/blog/hello'' = Some ''/src/pages/posts/hello'' \<and>
   resolvePageUrl only_blog_index blog_plugin ''/posts/hello'' = None \<and>
   resolvePageUrl only_blog_index blog_plugin ''/blog-index'' = Some ''/src/pages/blog-index'' \<and>
   resolveRedirect only_blog_index blog_plugin ''/blog/hello'' = None"
proof -
  have c: "compile_redirects [(''/about'', ''/about-us''), (''/blog/:slug'', ''posts/:slug.html''),
                      (''/blog/*'', ''/blog-index'')] = Inr (redirects blog_plugin)"
    by code_simp
  have r: "redirects blog_plugin =
      [\<lparr>regex = map Lit ''/about'', target = ''/about-us''\<rparr>] @
      \<lparr>regex = map Lit ''/blog/'' @ [NamedGroup ''slug'' NotSlashPlus], target = ''posts/:slug.html''\<rparr> #
      [\<lparr>regex = map Lit ''/blog/'' @ [NamedGroup ''splat'' AnyGreedy], target = ''/blog-index''\<rparr>]"
    by (simp add: blog_plugin_def blog_redirects_def)
  have e: "list_all (\<lambda>r. regex_match (regex r) ''/blog/hello'' = None)
             [\<lparr>regex = map Lit ''/about'', target = ''/about-us''\<rparr>]"
    by simp
  have m: "regex_match (regex \<lparr>regex = map Lit ''/blog/'' @ [NamedGroup ''slug'' NotSlashPlus],
                               target = ''posts/:slug.html''\<rparr>) ''/blog/hello''
           = Some [(''slug'', ''hello'')]"
    by code_simp
  have m2: "regex_match (map Lit ''/blog/'' @ [NamedGroup ''splat'' AnyGreedy]) ''/blog/hello''
            = Some [(''splat'', ''hello'')]"
    by code_simp
  have n: "normalizePath (substitute_groups ''posts/:slug.html'' [(''slug'', ''hello'')])
           = ''posts/hello.html''"
    by code_simp
  have t: "''posts/hello.html'' = normalizePath (substitute_groups
             (target \<lparr>regex = map Lit ''/blog/'' @ [NamedGroup ''slug'' NotSlashPlus],
                      target = ''posts/:slug.html''\<rparr>)
             [(''slug'', ''hello'')])"
    using n by simp
  have sl: "''/posts/hello.html'' =
              (if prefix ''/'' ''posts/hello.html'' then ''posts/hello.html''
               else ''/'' @ ''posts/hello.html'')"
    by simp
  have pg: "''/posts/hello.html'' = ''/posts/hello'' @ ''.html'' \<or>
            \<not> suffix ''.html'' ''/posts/hello.html'' \<and> ''/posts/hello'' = ''/posts/hello.html''"
    by simp
  have p1: "resolvePageUrl only_post blog_plugin ''/posts/hello'' = Some ''/src/pages/posts/hello''"
    by code_simp
  have p2: "resolvePageUrl only_blog_index blog_plugin ''/posts/hello'' = None" by code_simp
  have p3: "resolvePageUrl only_blog_index blog_plugin ''/blog-index''
            = Some ''/src/pages/blog-index''"
    by code_simp
  from first_matching_redirect_decides [OF r e m t sl pg, of only_post] p1
  have a: "resolveRedirect only_post blog_plugin ''/blog/hello'' = Some ''/src/pages/posts/hello''"
    by simp
  from first_matching_redirect_decides [OF r e m t sl pg, of only_blog_index] p2
  have b: "resolveRedirect only_blog_index blog_plugin ''/blog/hello'' = None"
    by simp
  from c e m m2 n p1 p2 p3 a b show ?thesis by simp
qed

section \<open>A target with query text\<close>

lemma user_rule_compiled:
  "compile_redirects [(''/user/:id'', ''/user-page?id=:id'')] = Inr [user_rule]"
  by code_simp

lemma user_rule_target: "redirect_match user_rule ''/user/42'' = Some ''/user-page?id=42''"
  by code_simp

text \<open>
  C4, as the code has it. With the redirect \<open>/user/:id\<close> to \<open>/user-page?id=:id\<close>, the path
  \<open>/user/42\<close> gives the target \<open>/user-page?id=42\<close>; the removal of a final \<open>.html\<close> and the
  page lookup are applied to that whole text, query text included: the file looked
  for is \<open>user-page?id=42.html\<close> under the pages root, and the page URL returned when it
  exists is the pages root followed by \<open>/user-page?id=42\<close>.
\<close>

theorem user_redirect_probes_target_with_query:
  assumes "compile_redirects [(''/user/:id'', ''/user-page?id=:id'')] = Inr (redirects p)"
  shows "map (\<lambda>m. redirect_match m ''/user/42'') (redirects p) = [Some ''/user-page?id=42''] \<and>
         resolveRedirect existsSync p ''/user/42'' =
           (if existsSync (path_join [root p, ''/'' @ pagesRoot p @ ''/user-page?id=42.html''])
            then Some (''/'' @ pagesRoot p @ ''/user-page?id=42'') else None)"
proof -
  from assms have r: "redirects p = [user_rule]" unfolding user_rule_compiled by simp
  have s: "strip_html ''/user-page?id=42'' = ''/user-page?id=42''" by code_simp
  have x: "\<not> suffix ''/'' (''/'' @ pagesRoot p @ ''/user-page?id=42'')"
    by (simp add: suffix_def)
  show ?thesis
    using x by (simp add: r user_rule_target resolveRedirect_def s resolvePageUrl_def Let_def)
qed

theorem user_redirect_probes_target_with_query_witness:
  "compile_redirects [(''/user/:id'', ''/user-page?id=:id'')] = Inr (redirects user_plugin) \<and>
   path_join [root user_plugin, ''/'' @ pagesRoot user_plugin @ ''/user-page?id=42.html'']
     = ''/app/src/pages/user-page?id=42.html'' \<and>
   resolveRedirect only_page_named_with_query user_plugin ''/user/42''
     = Some ''/src/pages/user-page?id=42''"
proof -
  have c: "compile_redirects [(''/user/:id'', ''/user-page?id=:id'')] = Inr (redirects user_plugin)"
    by code_simp
  have j: "path_join [root user_plugin, ''/'' @ pagesRoot user_plugin @ ''/user-page?id=42.html'']
             = ''/app/src/pages/user-page?id=42.html''"
    by code_simp
  have u: "''/'' @ pagesRoot user_plugin @ ''/user-page?id=42'' = ''/src/pages/user-page?id=42''"
    by (simp add: user_plugin_def)
  from user_redirect_probes_target_with_query [OF c, of only_page_named_with_query] j u
  have "resolveRedirect only_page_named_with_query user_plugin ''/user/42''
          = Some ''/src/pages/user-page?id=42''"
    by (simp add: only_page_named_with_query_def)
  with c j show ?thesis by simp
qed

text \<open>
  C4 as stated fails: when \<open>user-page.html\<close> is the only page on disk, the redirect of
  \<open>/user/42\<close> finds no page, for the file it looks for has the query text in its name.
\<close>

theorem user_redirect_page_not_probed_counterexample:
  "redirect_match user_rule ''/user/42'' = Some ''/user-page?id=42'' \<and>
   only_user_page (path_join [root user_plugin, ''/src/pages/user-page.html'']) \<and>
   resolvePageUrl only_user_page user_plugin ''/user-page'' = Some ''/src/pages/user-page'' \<and>
   resolveRedirect only_user_page user_plugin ''/user/42'' = None"
  by code_simp

section \<open>Captured values with a dollar sign\<close>

lemma get_substitution_plain:
  "CHR ''$'' \<notin> set v \<Longrightarrow> get_substitution matched preceding following v = v"
  by (induction matched preceding following v rule: get_substitution.induct) auto

text \<open>
  C6 at the paths \<open>/user/a$$b\<close> and \<open>/user/$&\<close>, with the redirect \<open>/user/:id\<close> to
  \<open>/user-page?id=:id\<close>: the values captured are \<open>a$$b\<close> and \<open>$&\<close>, and the targets built are
  \<open>/user-page?id=a$b\<close> and \<open>/user-page?id=:id\<close>, since \<open>replace\<close> reads \<open>$$\<close> and \<open>$&\<close> in its
  second argument as patterns (a value without a dollar sign is inserted as it is,
  lemma \<open>get_substitution_plain\<close>).
\<close>

theorem captured_dollar_not_verbatim:
  "compile_redirects [(''/user/:id'', ''/user-page?id=:id'')] = Inr [user_rule] \<and>
   regex_match (regex user_rule) ''/user/a$$b'' = Some [(''id'', ''a$$b'')] \<and>
   redirect_match user_rule ''/user/a$$b'' = Some ''/user-page?id=a$b'' \<and>
   regex_match (regex user_rule) ''/user/$&'' = Some [(''id'', ''$&'')] \<and>
   redirect_match user_rule ''/user/$&'' = Some ''/user-page?id=:id''"
  by code_simp

section \<open>Document requests\<close>

lemma resolvePageUrl_nonempty: "resolvePageUrl existsSync p u = Some pg \<Longrightarrow> pg \<noteq> []"
  by (auto simp: resolvePageUrl_def Let_def split: if_splits)

lemma resolve_loop_nonempty: "resolve_loop existsSync p ms u = Some pg \<Longrightarrow> pg \<noteq> []"
  by (induction ms) (auto simp: Let_def split: option.splits if_splits dest: resolvePageUrl_nonempty)

lemma truthy_resolveRedirect:
  "truthy (resolveRedirect existsSync p u) = (resolveRedirect existsSync p u \<noteq> None)"
  by (cases "resolveRedirect existsSync p u")
     (auto simp: resolveRedirect_def dest: resolve_loop_nonempty)

lemma truthy_resolvePageUrl:
  "truthy (resolvePageUrl existsSync p u) = (resolvePageUrl existsSync p u \<noteq> None)"
  by (cases "resolvePageUrl existsSync p u") (auto dest: resolvePageUrl_nonempty)

text \<open>
  The branch of the middleware for a document: the redirect first, the page only when
  there is no redirect, the request as it is when there is neither; the text appended
  is the query as the router split it off.
\<close>

lemma middleware_document:
  assumes "header req ''sec-fetch-dest'' = Some ''document''"
      and "split_url (url req) = (path, query)"
  shows "middleware existsSync pathname p req =
           Inr (case resolveRedirect existsSync p path of
                  Some redirectUrl \<Rightarrow> rewrite req (redirectUrl @ query_suffix query)
                | None \<Rightarrow>
                    (case resolvePageUrl existsSync p path of
                       Some pageUrl \<Rightarrow> rewrite req (pageUrl @ query_suffix query)
                     | None \<Rightarrow> req))"
  by (simp add: middleware_def assms Let_def truthy_resolveRedirect truthy_resolvePageUrl
           split: option.splits)

lemma split_on_absent: "sep \<notin> set s \<Longrightarrow> split_on sep s = [s]"
  by (induction s) auto

lemma split_on_first:
  "sep \<notin> set a \<Longrightarrow> split_on sep (a @ sep # b) = a # split_on sep b"
  by (induction a) auto

text \<open>With no question mark, or one, the router splits off the whole query.\<close>

lemma split_url_plain: "CHR ''?'' \<notin> set path \<Longrightarrow> split_url path = (path, [])"
  by (simp add: split_url_def split_on_absent)

lemma split_url_one_query:
  "CHR ''?'' \<notin> set path \<Longrightarrow> CHR ''?'' \<notin> set query \<Longrightarrow>
   split_url (path @ ''?'' @ query) = (path, query)"
  by (simp add: split_url_def split_on_first split_on_absent)

text \<open>
  C1 at the document request for \<open>/contact?next=/a?b=1\<close>, whose query is
  \<open>next=/a?b=1\<close>: \<open>split('?')\<close> cuts the URL at every question mark and the router keeps
  the first two pieces, so the URL is rewritten to \<open>/src/pages/contact?next=/a\<close> and the
  rest of the query is lost.
\<close>

theorem second_question_mark_drops_query:
  "header (document_request ''/contact?next=/a?b=1'') ''sec-fetch-dest'' = Some ''document'' \<and>
   split_url ''/contact?next=/a?b=1'' = (''/contact'', ''next=/a'') \<and>
   resolveRedirect contact_files plain_plugin ''/contact'' = None \<and>
   resolvePageUrl contact_files plain_plugin ''/contact'' = Some ''/src/pages/contact'' \<and>
   middleware contact_files localhost_pathname plain_plugin
       (document_request ''/contact?next=/a?b=1'')
     = Inr (rewrite (document_request ''/contact?next=/a?b=1'') ''/src/pages/contact?next=/a'')"
  by code_simp

section \<open>Requests for the assets of a page\<close>

lemma lastIndexOf_dir:
  "CHR ''/'' \<notin> set base \<Longrightarrow>
   slice0 (lastIndexOf CHR ''/'' (dir @ ''/'' @ base)) (dir @ ''/'' @ base) = dir"
proof -
  assume b: "CHR ''/'' \<notin> set base"
  have "dropWhile (\<lambda>x. x \<noteq> CHR ''/'') (rev base @ CHR ''/'' # rev dir) = CHR ''/'' # rev dir"
  proof -
    have "\<And>x. x \<in> set (rev base) \<Longrightarrow> x \<noteq> CHR ''/''" using b by auto
    then have "dropWhile (\<lambda>x. x \<noteq> CHR ''/'') (rev base @ CHR ''/'' # rev dir)
               = dropWhile (\<lambda>x. x \<noteq> CHR ''/'') (CHR ''/'' # rev dir)"
      by (rule dropWhile_append2)
    then show ?thesis by simp
  qed
  then have "lastIndexOf CHR ''/'' (dir @ ''/'' @ base) = int (length dir)"
    by (simp add: lastIndexOf_def)
  then show ?thesis by (simp add: slice0_def)
qed

text \<open>
  C2, as the code has it. Take a request whose \<open>sec-fetch-dest\<close> header has a non-empty
  value other than \<open>document\<close>, whose \<open>referer\<close> header has a non-empty value that parses
  as a URL, and whose path (the URL before its first question mark) does not begin
  with \<open>/@vite/\<close>; let the referrer's path resolve to a page URL, by a redirect or else
  as a page, and let \<open>dir\<close> be that page URL up to its last slash. Then the request is
  passed on, and exactly when a file exists at \<open>dir\<close> followed by the path and none
  exists at the path itself, its URL has become \<open>dir\<close> followed by the path (with
  nothing after it, or with text that begins with a question mark); otherwise the
  request is left as it is.
\<close>

theorem asset_rewrite_iff:
  assumes "split_url (url req) = (path, query)"
      and "header req ''sec-fetch-dest'' = Some dest" and "dest \<noteq> []" and "dest \<noteq> ''document''"
      and "header req ''referer'' = Some referer" and "referer \<noteq> []"
      and "\<not> prefix ''/@vite/'' path"
      and "pathname referer = Some referer_pathname"
      and "resolveRedirect existsSync p referer_pathname = Some pageUrl \<or>
           resolveRedirect existsSync p referer_pathname = None \<and>
           resolvePageUrl existsSync p referer_pathname = Some pageUrl"
      and "pageUrl = dir @ ''/'' @ base" and "CHR ''/'' \<notin> set base"
  shows "\<exists>req'. middleware existsSync pathname p req = Inr req' \<and>
           (if existsSync (path_join [root p, dir @ path]) \<and>
               \<not> existsSync (path_join [root p, path])
            then \<exists>rest. url req' = dir @ path @ rest \<and> (rest = [] \<or> prefix ''?'' rest)
            else req' = req)"
proof -
  have ne: "pageUrl \<noteq> []" using assms(10) by simp
  have pu: "(if truthy (resolveRedirect existsSync p referer_pathname)
             then resolveRedirect existsSync p referer_pathname
             else resolvePageUrl existsSync p referer_pathname) = Some pageUrl"
    using assms(9) ne by auto
  have d: "slice0 (lastIndexOf CHR ''/'' pageUrl) pageUrl = dir"
    using lastIndexOf_dir [OF assms(11), of dir] assms(10) by simp
  have q: "query_suffix query = [] \<or> prefix ''?'' (query_suffix query)"
    by (simp add: query_suffix_def)
  have m: "middleware existsSync pathname p req =
           Inr (if existsSync (path_join [root p, dir @ path]) \<and>
                   \<not> existsSync (path_join [root p, path])
                then rewrite req (dir @ path @ query_suffix query)
                else req)"
    using assms(3,4,6,7) ne
    by (simp add: middleware_def assms(1,2,5,8) pu d Let_def)
  have u: "url (rewrite req (dir @ path @ query_suffix query)) = dir @ path @ query_suffix query"
    by (simp add: rewrite_def)
  show ?thesis
  proof (cases "existsSync (path_join [root p, dir @ path]) \<and>
                \<not> existsSync (path_join [root p, path])")
    case True
    with m have "middleware existsSync pathname p req
                 = Inr (rewrite req (dir @ path @ query_suffix query))"
      by simp
    with True u q show ?thesis by auto
  next
    case False
    with m have "middleware existsSync pathname p req = Inr req" by auto
    with False show ?thesis by auto
  qed
qed

theorem asset_rewrite_iff_witness:
  "middleware contact_files localhost_pathname plain_plugin (asset_request ''image'')
     = Inr \<lparr>url = ''/src/pages/contact/logo.png?v=1'', originalUrl = None,
            headers = [(''sec-fetch-dest'', ''image''),
                       (''referer'', ''http://localhost:5173/contact/'')]\<rparr> \<and>
   middleware contact_files_and_logo localhost_pathname plain_plugin (asset_request ''image'')
     = Inr \<lparr>url = ''/logo.png?v=1'', originalUrl = Some ''/logo.png?v=1'',
            headers = [(''sec-fetch-dest'', ''image''),
                       (''referer'', ''http://localhost:5173/contact/'')]\<rparr>"
proof -
  have u: "split_url (url (asset_request ''image'')) = (''/logo.png'', ''v=1'')" by code_simp
  have h1: "header (asset_request ''image'') ''sec-fetch-dest'' = Some ''image''" by code_simp
  have n1: "''image'' \<noteq> []" and n2: "''image'' \<noteq> ''document''" by simp_all
  have h2: "header (asset_request ''image'') ''referer'' = Some ''http://localhost:5173/contact/''"
    by code_simp
  have n3: "''http://localhost:5173/contact/'' \<noteq> []" by simp
  have v: "\<not> prefix ''/@vite/'' ''/logo.png''" by simp
  have pn: "localhost_pathname ''http://localhost:5173/contact/'' = Some ''/contact/''"
    by (simp add: localhost_pathname_def)
  have r1: "resolveRedirect contact_files plain_plugin ''/contact/'' = Some ''/src/pages/contact/'' \<or>
            resolveRedirect contact_files plain_plugin ''/contact/'' = None \<and>
            resolvePageUrl contact_files plain_plugin ''/contact/'' = Some ''/src/pages/contact/''"
    by code_simp
  have r2: "resolveRedirect contact_files_and_logo plain_plugin ''/contact/''
              = Some ''/src/pages/contact/'' \<or>
            resolveRedirect contact_files_and_logo plain_plugin ''/contact/'' = None \<and>
            resolvePageUrl contact_files_and_logo plain_plugin ''/contact/''
              = Some ''/src/pages/contact/''"
    by code_simp
  have d: "''/src/pages/contact/'' = ''/src/pages/contact'' @ ''/'' @ []" by simp
  have b: "CHR ''/'' \<notin> set []" by simp
  have e1: "contact_files (path_join [root plain_plugin, ''/src/pages/contact'' @ ''/logo.png'']) \<and>
            \<not> contact_files (path_join [root plain_plugin, ''/logo.png''])" by code_simp
  have e2: "contact_files_and_logo (path_join [root plain_plugin, ''/logo.png''])" by code_simp
  have rq: "asset_request ''image''
            = \<lparr>url = ''/logo.png?v=1'', originalUrl = Some ''/logo.png?v=1'',
               headers = [(''sec-fetch-dest'', ''image''),
                          (''referer'', ''http://localhost:5173/contact/'')]\<rparr>"
    by (simp add: asset_request_def)
  have ev: "middleware contact_files localhost_pathname plain_plugin (asset_request ''image'')
     = Inr \<lparr>url = ''/src/pages/contact/logo.png?v=1'', originalUrl = None,
            headers = [(''sec-fetch-dest'', ''image''),
                       (''referer'', ''http://localhost:5173/contact/'')]\<rparr>"
    by code_simp
  from asset_rewrite_iff [where pathname = localhost_pathname and existsSync = contact_files,
      OF u h1 n1 n2 h2 n3 v pn r1 d b] e1
  obtain req1 rest where a1: "middleware contact_files localhost_pathname plain_plugin
                                (asset_request ''image'') = Inr req1"
    and a2: "url req1 = ''/src/pages/contact'' @ ''/logo.png'' @ rest"
    by auto
  from a1 a2 ev have a: "middleware contact_files localhost_pathname plain_plugin
                           (asset_request ''image'')
     = Inr \<lparr>url = ''/src/pages/contact/logo.png?v=1'', originalUrl = None,
            headers = [(''sec-fetch-dest'', ''image''),
                       (''referer'', ''http://localhost:5173/contact/'')]\<rparr>"
    by simp
  from asset_rewrite_iff [where pathname = localhost_pathname and existsSync = contact_files_and_logo,
      OF u h1 n1 n2 h2 n3 v pn r2 d b] e2
  have c: "middleware contact_files_and_logo localhost_pathname plain_plugin (asset_request ''image'')
     = Inr (asset_request ''image'')"
    by auto
  from a c rq show ?thesis by simp
qed

text \<open>
  C2 as stated fails: a request whose \<open>sec-fetch-dest\<close> header is present with an empty
  value is passed on as it is, although the file exists next to the page and not at
  the path of the request.
\<close>

theorem empty_dest_header_counterexample:
  "header (asset_request []) ''sec-fetch-dest'' = Some [] \<and>
   header (asset_request []) ''referer'' = Some ''http://localhost:5173/contact/'' \<and>
   resolvePageUrl contact_files plain_plugin ''/contact/'' = Some ''/src/pages/contact/'' \<and>
   contact_files (path_join [root plain_plugin, ''/src/pages/contact/logo.png'']) \<and>
   \<not> contact_files (path_join [root plain_plugin, ''/logo.png'']) \<and>
   middleware contact_files localhost_pathname plain_plugin (asset_request [])
     = Inr (asset_request [])"
  by code_simp

section \<open>The output flattener\<close>

lemma flatten_loop_entries:
  "list_all2
     (\<lambda>(k, f) (k', f').
        k' = k \<and>
        (if file_type f = Asset \<and> prefix (pr @ ''/'') (fileName f)
         then f' = f\<lparr>fileName := drop (length pr + 1) (fileName f)\<rparr> \<and>
              fileName f = pr @ ''/'' @ fileName f'
         else f' = f))
     files (flatten_loop pr files)"
proof (induction files)
  case Nil
  show ?case by simp
next
  case (Cons e files)
  obtain k f where e: "e = (k, f)" by (cases e)
  have "prefix (pr @ ''/'') (fileName f) \<Longrightarrow>
        fileName f = pr @ ''/'' @ drop (length pr + 1) (fileName f)"
    by (auto simp: prefix_def)
  with Cons.IH show ?case by (simp add: e)
qed

lemma flatten_loop_twice:
  "list_all (\<lambda>(k, f). \<not> (file_type f = Asset \<and> prefix (pr @ ''/'' @ pr @ ''/'') (fileName f))) files \<Longrightarrow>
   flatten_loop pr (flatten_loop pr files) = flatten_loop pr files"
proof (induction files)
  case Nil
  show ?case by simp
next
  case (Cons e files)
  obtain k f where e: "e = (k, f)" by (cases e)
  have "prefix (pr @ ''/'') (fileName f) \<Longrightarrow>
        prefix (pr @ ''/'') (drop (length pr + 1) (fileName f)) \<Longrightarrow>
        prefix (pr @ ''/'' @ pr @ ''/'') (fileName f)"
    by (auto simp: prefix_def)
  with Cons show ?case by (auto simp: e)
qed

text \<open>
  C5, as the code has it. Entry by entry, \<open>generateBundle\<close> keeps the key; in the client
  environment, for an entry of type asset whose \<open>fileName\<close> begins with the pages root and
  a slash, the new \<open>fileName\<close> is the old one without its first \<open>length pagesRoot + 1\<close>
  characters, so that the old one is the pages root, a slash and the new one; every
  other entry (another type, another path, another environment) is left as it is.
\<close>

theorem generateBundle_flattens_assets:
  "list_all2
     (\<lambda>(k, f) (k', f').
        k' = k \<and>
        (if environment_name ctx = ''client'' \<and> file_type f = Asset \<and>
            prefix (pagesRoot p @ ''/'') (fileName f)
         then f' = f\<lparr>fileName := drop (length (pagesRoot p) + 1) (fileName f)\<rparr> \<and>
              fileName f = pagesRoot p @ ''/'' @ fileName f'
         else f' = f))
     files (generateBundle p ctx files)"
proof (cases "environment_name ctx = ''client''")
  case True
  then show ?thesis
    using flatten_loop_entries [of "pagesRoot p" files]
    by (simp add: generateBundle_def)
next
  case False
  then show ?thesis
    by (simp add: generateBundle_def list_all2_same split_def del: One_nat_def)
qed

theorem generateBundle_flattens_assets_witness:
  "generateBundle plain_plugin client_context
     [(''a'', \<lparr>file_type = Asset, fileName = ''src/pages/contact/index.html''\<rparr>),
      (''b'', \<lparr>file_type = Asset, fileName = ''assets/logo.png''\<rparr>)]
   = [(''a'', \<lparr>file_type = Asset, fileName = ''contact/index.html''\<rparr>),
      (''b'', \<lparr>file_type = Asset, fileName = ''assets/logo.png''\<rparr>)]"
  using generateBundle_flattens_assets [of client_context plain_plugin
      "[(''a'', \<lparr>file_type = Asset, fileName = ''src/pages/contact/index.html''\<rparr>),
        (''b'', \<lparr>file_type = Asset, fileName = ''assets/logo.png''\<rparr>)]"]
  by (simp add: plain_plugin_def client_context_def generateBundle_def)

text \<open>
  C5 as stated fails: a generated file of type chunk whose path begins with
  \<open>src/pages/\<close> keeps its path.
\<close>

theorem generateBundle_keeps_chunk_counterexample:
  "prefix (pagesRoot plain_plugin @ ''/'') ''src/pages/contact.js'' \<and>
   generateBundle plain_plugin client_context
     [(''src/pages/contact.js'', \<lparr>file_type = Chunk, fileName = ''src/pages/contact.js''\<rparr>)]
   = [(''src/pages/contact.js'', \<lparr>file_type = Chunk, fileName = ''src/pages/contact.js''\<rparr>)]"
  by (simp add: generateBundle_def plain_plugin_def client_context_def)

section \<open>Emitting and flattening a second time\<close>

lemma emit_all:
  "foldl (\<lambda>c file. emitFile c (h file)) ctx xs = ctx\<lparr>emitted := emitted ctx @ map h xs\<rparr>"
  by (induction xs arbitrary: ctx) (simp_all add: emitFile_def)

lemma buildStart_emitted:
  "buildStart g p ctx =
     (if environment_name ctx \<noteq> ''client'' then ctx
      else ctx\<lparr>emitted := emitted ctx @
             map (\<lambda>file. EmittedChunk (path_relative (root p) file))
                 (g (path_join [root p, pagesRoot p @ ''/**/*.html'']))\<rparr>)"
  unfolding buildStart_def by (simp only: emit_all)

text \<open>
  C9, as the code has it. When no asset of the bundle has a path that begins with the
  pages root twice (\<open>pagesRoot/pagesRoot/\<close>), a second pass of \<open>generateBundle\<close> over the
  flattened bundle changes nothing; and a second \<open>buildStart\<close> on the same files emits
  the same set of entries as the first.
\<close>

theorem second_pass_same_manifest:
  assumes "list_all (\<lambda>(k, f). \<not> (file_type f = Asset \<and>
             prefix (pagesRoot p @ ''/'' @ pagesRoot p @ ''/'') (fileName f))) files"
  shows "generateBundle p ctx (generateBundle p ctx files) = generateBundle p ctx files \<and>
         set (emitted (buildStart g p (buildStart g p ctx'))) = set (emitted (buildStart g p ctx'))"
proof
  show "generateBundle p ctx (generateBundle p ctx files) = generateBundle p ctx files"
    using flatten_loop_twice [OF assms] by (simp add: generateBundle_def)
  show "set (emitted (buildStart g p (buildStart g p ctx'))) = set (emitted (buildStart g p ctx'))"
    by (simp add: buildStart_emitted)
qed

theorem second_pass_same_manifest_witness:
  "generateBundle plain_plugin client_context
     (generateBundle plain_plugin client_context
        [(''a'', \<lparr>file_type = Asset, fileName = ''src/pages/contact/index.html''\<rparr>)])
   = [(''a'', \<lparr>file_type = Asset, fileName = ''contact/index.html''\<rparr>)] \<and>
   set (emitted (buildStart one_page_glob plain_plugin
                   (buildStart one_page_glob plain_plugin client_context)))
   = {EmittedChunk ''src/pages/contact/index.html''}"
proof -
  have h: "list_all (\<lambda>(k, f). \<not> (file_type f = Asset \<and>
             prefix (pagesRoot plain_plugin @ ''/'' @ pagesRoot plain_plugin @ ''/'') (fileName f)))
           [(''a'', \<lparr>file_type = Asset, fileName = ''src/pages/contact/index.html''\<rparr>)]"
    by (simp add: plain_plugin_def)
  have g: "generateBundle plain_plugin client_context
     [(''a'', \<lparr>file_type = Asset, fileName = ''src/pages/contact/index.html''\<rparr>)]
    = [(''a'', \<lparr>file_type = Asset, fileName = ''contact/index.html''\<rparr>)]"
    by (simp add: plain_plugin_def client_context_def generateBundle_def)
  have b: "emitted (buildStart one_page_glob plain_plugin client_context)
    = [EmittedChunk ''src/pages/contact/index.html'']"
    by code_simp
  from second_pass_same_manifest [OF h, of client_context one_page_glob client_context] g b
  show ?thesis by simp
qed

text \<open>
  C9 as stated fails: for a page stored under \<open>src/pages/src/pages/\<close>, the path left by
  the first pass begins with the pages root again, and a second pass changes it.
\<close>

theorem second_pass_changes_path_counterexample:
  "generateBundle plain_plugin client_context
     [(''a'', \<lparr>file_type = Asset, fileName = ''src/pages/src/pages/x.html''\<rparr>)]
   = [(''a'', \<lparr>file_type = Asset, fileName = ''src/pages/x.html''\<rparr>)] \<and>
   generateBundle plain_plugin client_context
     (generateBundle plain_plugin client_context
        [(''a'', \<lparr>file_type = Asset, fileName = ''src/pages/src/pages/x.html''\<rparr>)])
   = [(''a'', \<lparr>file_type = Asset, fileName = ''x.html''\<rparr>)]"
  by (simp add: generateBundle_def plain_plugin_def client_context_def)

end
